theory Spec2Isabelle
  imports Complex_Main
begin

chapter \<open>The program\<close>

section \<open>Dense two-dimensional arrays\<close>

text \<open>
  Every grid of \<^verbatim>\<open>tgen6_water.py\<close> is a two-dimensional float array with
  \<^verbatim>\<open>shape = (height, width)\<close>, indexed \<^verbatim>\<open>a[y, x]\<close>. An array is modelled by its shape and
  its element function; only the elements at in-bounds indices are the array's contents.
  Elements are real numbers: floating-point rounding and NaN are not modelled (the code
  only compares, subtracts and adds elevations). Coordinates are Python integers.
\<close>

type_synonym cell = "int \<times> int"

text \<open>The exceptions an index operation or the percentile routine can raise.\<close>

datatype py_error = IndexError | ValueError

record ndarray =
  shape0 :: nat
  shape1 :: nat
  item :: "int \<Rightarrow> int \<Rightarrow> real"

text \<open>The guard \<^verbatim>\<open>0 <= ny < a.shape[0] and 0 <= nx < a.shape[1]\<close>.\<close>

definition in_bounds :: "ndarray \<Rightarrow> int \<Rightarrow> int \<Rightarrow> bool" where
  "in_bounds a ny nx \<longleftrightarrow>
     0 \<le> ny \<and> ny < int (shape0 a) \<and> 0 \<le> nx \<and> nx < int (shape1 a)"

text \<open>
  Indexing along one axis of length \<open>n\<close>: an index in \<open>[-n, 0)\<close> counts from the
  end, an index outside \<open>[-n, n)\<close> raises \<^verbatim>\<open>IndexError\<close>.
\<close>

definition norm_index :: "nat \<Rightarrow> int \<Rightarrow> py_error + int" where
  "norm_index n i =
     (if 0 \<le> i \<and> i < int n then Inr i
      else if - int n \<le> i \<and> i < 0 then Inr (i + int n)
      else Inl IndexError)"

text \<open>\<^verbatim>\<open>a[y, x]\<close> as an expression.\<close>

definition getitem :: "ndarray \<Rightarrow> int \<Rightarrow> int \<Rightarrow> py_error + real" where
  "getitem a y x =
     (case norm_index (shape0 a) y of
        Inl e \<Rightarrow> Inl e
      | Inr y' \<Rightarrow>
          (case norm_index (shape1 a) x of
             Inl e \<Rightarrow> Inl e
           | Inr x' \<Rightarrow> Inr (item a y' x')))"

text \<open>\<^verbatim>\<open>a[y, x] = v\<close> as a statement: the array after the assignment.\<close>

definition setitem :: "ndarray \<Rightarrow> int \<Rightarrow> int \<Rightarrow> real \<Rightarrow> py_error + ndarray" where
  "setitem a y x v =
     (case norm_index (shape0 a) y of
        Inl e \<Rightarrow> Inl e
      | Inr y' \<Rightarrow>
          (case norm_index (shape1 a) x of
             Inl e \<Rightarrow> Inl e
           | Inr x' \<Rightarrow>
               Inr (a\<lparr>item := \<lambda>r c. if r = y' \<and> c = x' then v else item a r c\<rparr>)))"

text \<open>\<^verbatim>\<open>np.zeros(shape)\<close>.\<close>

definition zeros :: "nat \<Rightarrow> nat \<Rightarrow> ndarray" where
  "zeros h w = \<lparr>shape0 = h, shape1 = w, item = \<lambda>r c. 0\<rparr>"

text \<open>
  \<^verbatim>\<open>a[mask] = v\<close> for a boolean mask of the array's shape: every in-bounds
  element whose mask is set becomes \<open>v\<close>.
\<close>

definition mask_assign :: "ndarray \<Rightarrow> (int \<Rightarrow> int \<Rightarrow> bool) \<Rightarrow> real \<Rightarrow> ndarray" where
  "mask_assign a sel v =
     a\<lparr>item := \<lambda>r c. if in_bounds a r c \<and> sel r c then v else item a r c\<rparr>"

text \<open>\<^verbatim>\<open>range(n)\<close>, as the loops over \<^verbatim>\<open>range(elevation_map.shape[0])\<close> use it.\<close>

definition py_range :: "nat \<Rightarrow> int list" where
  "py_range n = map int [0..<n]"

text \<open>
  The scan order of every neighbourhood loop,
  \<^verbatim>\<open>for dy in range(-1, 2): for dx in range(-1, 2)\<close>: \<open>dy\<close> outermost.
\<close>

definition offsets :: "(int \<times> int) list" where
  "offsets = List.product [-1, 0, 1] [-1, 0, 1]"

section \<open>Water classifier\<close>

text \<open>
  \<^verbatim>\<open>def generate_water(self, elevation_map, water_level):
      water_map = np.zeros(elevation_map.shape)
      water_map[elevation_map <= water_level] = 1  # Water
      water_map[elevation_map > water_level] = 0  # Land
      return water_map\<close>
\<close>

definition generate_water :: "ndarray \<Rightarrow> real \<Rightarrow> ndarray" where
  "generate_water elevation_map water_level =
     (let water_map = zeros (shape0 elevation_map) (shape1 elevation_map);
          water_map = mask_assign water_map (\<lambda>r c. item elevation_map r c \<le> water_level) 1;
          water_map = mask_assign water_map (\<lambda>r c. item elevation_map r c > water_level) 0
      in water_map)"

section \<open>Source detector\<close>

text \<open>
  \<^verbatim>\<open>def is_local_maximum(self, y, x, elevation_map):
      max_elevation = elevation_map[y, x]
      for dy in range(-1, 2):
          for dx in range(-1, 2):
              if dy == 0 and dx == 0:
                  continue
              ny, nx = y + dy, x + dx
              if 0 <= ny < elevation_map.shape[0] and 0 <= nx < elevation_map.shape[1]:
                  if elevation_map[ny, nx] > max_elevation:
                      return False
      return True\<close>
  The loop with its early return is \<open>no_higher_neighbor\<close>, run over the offsets in scan order.
\<close>

fun no_higher_neighbor :: "ndarray \<Rightarrow> int \<Rightarrow> int \<Rightarrow> real \<Rightarrow> (int \<times> int) list \<Rightarrow> bool" where
  "no_higher_neighbor elevation_map y x max_elevation [] = True"
| "no_higher_neighbor elevation_map y x max_elevation ((dy, dx) # ds) =
     (if dy = 0 \<and> dx = 0 then no_higher_neighbor elevation_map y x max_elevation ds
      else
        (let ny = y + dy; nx = x + dx in
         if in_bounds elevation_map ny nx \<and> item elevation_map ny nx > max_elevation then False
         else no_higher_neighbor elevation_map y x max_elevation ds))"

definition is_local_maximum :: "int \<Rightarrow> int \<Rightarrow> ndarray \<Rightarrow> py_error + bool" where
  "is_local_maximum y x elevation_map =
     (case getitem elevation_map y x of
        Inl e \<Rightarrow> Inl e
      | Inr max_elevation \<Rightarrow> Inr (no_higher_neighbor elevation_map y x max_elevation offsets))"

text \<open>
  \<^verbatim>\<open>def find_water_sources(self, elevation_map, percentile=95):
      threshold = np.percentile(elevation_map, percentile)
      sources = np.argwhere(elevation_map > threshold)
      sources = [(y, x) for y, x in sources if self.is_local_maximum(y, x, elevation_map)]
      return sources\<close>
  \<open>ravel\<close> is the array flattened in row-major order, as the percentile routine reads it;
  \<open>argwhere\<close> lists, in row-major order, the indices whose element satisfies the condition;
  \<open>keep_local_maxima\<close> is the list comprehension.
\<close>

definition ravel :: "ndarray \<Rightarrow> real list" where
  "ravel a = concat (map (\<lambda>y. map (\<lambda>x. item a y x) (py_range (shape1 a))) (py_range (shape0 a)))"

definition argwhere :: "ndarray \<Rightarrow> (real \<Rightarrow> bool) \<Rightarrow> cell list" where
  "argwhere a p =
     concat (map (\<lambda>y. map (\<lambda>x. (y, x)) (filter (\<lambda>x. p (item a y x)) (py_range (shape1 a))))
       (py_range (shape0 a)))"

fun keep_local_maxima :: "ndarray \<Rightarrow> cell list \<Rightarrow> py_error + cell list" where
  "keep_local_maxima elevation_map [] = Inr []"
| "keep_local_maxima elevation_map ((y, x) # sources) =
     (case is_local_maximum y x elevation_map of
        Inl e \<Rightarrow> Inl e
      | Inr keep \<Rightarrow>
          (case keep_local_maxima elevation_map sources of
             Inl e \<Rightarrow> Inl e
           | Inr rest \<Rightarrow> Inr (if keep then (y, x) # rest else rest)))"

definition find_water_sources :: "(real list \<Rightarrow> real \<Rightarrow> py_error + real) \<Rightarrow> ndarray \<Rightarrow> real
    \<Rightarrow> py_error + cell list" where
  "find_water_sources percentile_fn elevation_map percentile =
     (case percentile_fn (ravel elevation_map) percentile of
        Inl e \<Rightarrow> Inl e
      | Inr threshold \<Rightarrow>
          keep_local_maxima elevation_map (argwhere elevation_map (\<lambda>v. v > threshold)))"

text \<open>
  \<^verbatim>\<open>np.percentile\<close> belongs to the array library, not to this repository, so
  \<^verbatim>\<open>find_water_sources\<close> takes the routine as a parameter. \<open>np_percentile\<close> models the
  library routine: a percentile outside \<open>[0, 100]\<close> is rejected first, with \<^verbatim>\<open>ValueError\<close>;
  an empty array makes it raise (it indexes the last element of the sorted data, an
  \<^verbatim>\<open>IndexError\<close>); otherwise the result interpolates linearly between the two closest
  ranks of the sorted data, the library's default method.
\<close>

definition np_percentile :: "real list \<Rightarrow> real \<Rightarrow> py_error + real" where
  "np_percentile a q =
     (if q < 0 \<or> 100 < q then Inl ValueError
      else if a = [] then Inl IndexError
      else
        (let s = sort a;
             n = length a;
             virtual_index = q / 100 * real (n - 1);
             lo = nat \<lfloor>virtual_index\<rfloor>;
             hi = min (lo + 1) (n - 1);
             gamma = virtual_index - real lo
         in Inr (s ! lo + gamma * (s ! hi - s ! lo))))"

section \<open>Flow tracer\<close>

text \<open>
  \<^verbatim>\<open>def find_downhill_water_path(self, y, x, elevation_map):
      path = []
      while True:
          path.append((y, x))
          next_y, next_x = None, None
          lowest = elevation_map[y, x]
          for dy in range(-1, 2):
              for dx in range(-1, 2):
                  ny, nx = y + dy, x + dx
                  if (0 <= ny < elevation_map.shape[0] and 0 <= nx < elevation_map.shape[1] and
                          (ny, nx) not in path and elevation_map[ny, nx] < lowest):
                      lowest = elevation_map[ny, nx]
                      next_y, next_x = ny, nx
          if next_y is None or elevation_map[next_y, next_x] >= elevation_map[y, x]:
              break
          y, x = next_y, next_x
      return path\<close>
  \<open>lower_step\<close> is the body of the inner loops on the state \<open>(lowest, next)\<close>,
  \<open>lowest_neighbor\<close> the scan of the nine offsets, \<open>trace_loop\<close> the \<^verbatim>\<open>while\<close> loop with the
  path built so far, and \<open>cur\<close> the value read as \<^verbatim>\<open>elevation_map[y, x]\<close>.
\<close>

definition lower_step :: "ndarray \<Rightarrow> cell list \<Rightarrow> int \<Rightarrow> int \<Rightarrow> int \<times> int
    \<Rightarrow> real \<times> cell option \<Rightarrow> real \<times> cell option" where
  "lower_step elevation_map path y x d st =
     (case d of (dy, dx) \<Rightarrow>
        (case st of (lowest, nxt) \<Rightarrow>
           (let ny = y + dy; nx = x + dx in
            if in_bounds elevation_map ny nx \<and> (ny, nx) \<notin> set path
               \<and> item elevation_map ny nx < lowest
            then (item elevation_map ny nx, Some (ny, nx))
            else (lowest, nxt))))"

definition lowest_neighbor :: "ndarray \<Rightarrow> cell list \<Rightarrow> int \<Rightarrow> int \<Rightarrow> real \<Rightarrow> cell option" where
  "lowest_neighbor elevation_map path y x cur =
     snd (fold (lower_step elevation_map path y x) offsets (cur, None))"

text \<open>The index set of an array.\<close>

definition cells_of :: "ndarray \<Rightarrow> cell set" where
  "cells_of a = {0..<int (shape0 a)} \<times> {0..<int (shape1 a)}"

text \<open>
  Termination of the \<^verbatim>\<open>while\<close> loop: the cell the scan returns is in bounds and not on the
  path, so the number of in-bounds cells off the path decreases with every iteration.
\<close>

lemma lower_step_inv:
  assumes "case st of (lowest, nxt) \<Rightarrow>
      (case nxt of None \<Rightarrow> lowest = cur
        | Some (ny, nx) \<Rightarrow> in_bounds em ny nx \<and> (ny, nx) \<notin> set path \<and> lowest = item em ny nx \<and> lowest < cur)"
  shows "case fold (lower_step em path y x) ds st of (lowest, nxt) \<Rightarrow>
      (case nxt of None \<Rightarrow> lowest = cur
        | Some (ny, nx) \<Rightarrow> in_bounds em ny nx \<and> (ny, nx) \<notin> set path \<and> lowest = item em ny nx \<and> lowest < cur)"
  using assms
proof (induction ds arbitrary: st)
  case Nil
  then show ?case by simp
next
  case (Cons d ds)
  show ?case
    unfolding fold_Cons comp_def
    apply (rule Cons.IH)
    using Cons.prems
    by (auto simp add: lower_step_def Let_def split: prod.splits option.splits)
qed

lemma lowest_neighbor_Some:
  assumes "lowest_neighbor em path y x cur = Some (ny, nx)"
  shows "in_bounds em ny nx \<and> (ny, nx) \<notin> set path \<and> item em ny nx < cur"
proof -
  have "case fold (lower_step em path y x) offsets (cur, None) of (lowest, nxt) \<Rightarrow>
      (case nxt of None \<Rightarrow> lowest = cur
        | Some (ny, nx) \<Rightarrow> in_bounds em ny nx \<and> (ny, nx) \<notin> set path \<and> lowest = item em ny nx \<and> lowest < cur)"
    by (rule lower_step_inv) simp
  with assms show ?thesis
    by (auto simp add: lowest_neighbor_def split: prod.splits option.splits)
qed

lemma finite_cells_of: "finite (cells_of a)"
  by (simp add: cells_of_def)

lemma in_bounds_cells_of: "in_bounds a y x \<longleftrightarrow> (y, x) \<in> cells_of a"
  by (auto simp add: in_bounds_def cells_of_def)

function trace_loop :: "ndarray \<Rightarrow> cell list \<Rightarrow> int \<Rightarrow> int \<Rightarrow> py_error + cell list" where
  "trace_loop elevation_map path y x =
     (let path' = path @ [(y, x)] in
      case getitem elevation_map y x of
        Inl e \<Rightarrow> Inl e
      | Inr cur \<Rightarrow>
          (case lowest_neighbor elevation_map path' y x cur of
             None \<Rightarrow> Inr path'
           | Some (next_y, next_x) \<Rightarrow>
               if item elevation_map next_y next_x \<ge> cur then Inr path'
               else trace_loop elevation_map path' next_y next_x))"
  by pat_completeness auto
termination
proof (relation "measure (\<lambda>(em, path, y, x). card (cells_of em - set (path @ [(y, x)])))")
  show "wf (measure (\<lambda>(em, path, y, x). card (cells_of em - set (path @ [(y, x)]))))"
    by simp
next
  fix elevation_map path y x path' cur c next_y next_x
  assume p: "path' = path @ [(y, x)]"
    and ln: "lowest_neighbor elevation_map path' y x cur = Some c"
    and c: "(next_y, next_x) = c"
  from ln c have "lowest_neighbor elevation_map path' y x cur = Some (next_y, next_x)" by simp
  from lowest_neighbor_Some [OF this]
  have ib: "(next_y, next_x) \<in> cells_of elevation_map" and nin: "(next_y, next_x) \<notin> set path'"
    by (simp_all add: in_bounds_cells_of)
  have "cells_of elevation_map - set (path' @ [(next_y, next_x)])
          \<subset> cells_of elevation_map - set path'"
    using ib nin by auto
  then have "card (cells_of elevation_map - set (path' @ [(next_y, next_x)]))
          < card (cells_of elevation_map - set path')"
    by (intro psubset_card_mono) (simp_all add: finite_cells_of)
  then show "((elevation_map, path', next_y, next_x), (elevation_map, path, y, x))
        \<in> measure (\<lambda>(em, path, y, x). card (cells_of em - set (path @ [(y, x)])))"
    using p by (simp add: insert_commute)
qed

declare trace_loop.simps [simp del]

definition find_downhill_water_path :: "int \<Rightarrow> int \<Rightarrow> ndarray \<Rightarrow> py_error + cell list" where
  "find_downhill_water_path y x elevation_map = trace_loop elevation_map [] y x"

section \<open>Lake expander\<close>

text \<open>
  \<^verbatim>\<open>def expand_lake(self, y, x, elevation_map, river_map, lake_depth=100, max_gradient=50):
      start_elevation = elevation_map[y, x]
      queue = [(y, x)]
      visited = set()
      while queue:
          cy, cx = queue.pop(0)
          if (cy, cx) in visited:
              continue
          visited.add((cy, cx))
          for dy in range(-1, 2):
              for dx in range(-1, 2):
                  ny, nx = cy + dy, cx + dx
                  if 0 <= ny < elevation_map.shape[0] and 0 <= nx < elevation_map.shape[1]:
                      elevation_difference = elevation_map[ny, nx] - start_elevation
                      if elevation_difference <= lake_depth and elevation_difference >= -max_gradient:
                          if river_map[ny, nx] == 0:  # Ensure we're not overwriting rivers
                              river_map[ny, nx] = 2  # Mark as lake
                          queue.append((ny, nx))\<close>
  The function mutates the caller's \<^verbatim>\<open>river_map\<close> and returns nothing. The model returns the
  grid as the call leaves it: \<open>Inr\<close> after a normal return, \<open>Inl\<close> with the error and the
  grid as mutated so far when an index operation raises. \<open>lake_step\<close> is the body of the
  inner loops on the state \<open>(river_map, queue)\<close>, \<open>expand_loop\<close> the \<^verbatim>\<open>while\<close> loop.
\<close>

type_synonym lake_result = "(py_error \<times> ndarray) + ndarray"

definition lake_step :: "ndarray \<Rightarrow> real \<Rightarrow> real \<Rightarrow> real \<Rightarrow> int \<Rightarrow> int \<Rightarrow> int \<times> int
    \<Rightarrow> (py_error \<times> ndarray) + (ndarray \<times> cell list)
    \<Rightarrow> (py_error \<times> ndarray) + (ndarray \<times> cell list)" where
  "lake_step elevation_map start_elevation lake_depth max_gradient cy cx d st =
     (case st of
        Inl err \<Rightarrow> Inl err
      | Inr (river_map, queue) \<Rightarrow>
          (case d of (dy, dx) \<Rightarrow>
             (let ny = cy + dy; nx = cx + dx in
              if in_bounds elevation_map ny nx then
                (let elevation_difference = item elevation_map ny nx - start_elevation in
                 if elevation_difference \<le> lake_depth \<and> elevation_difference \<ge> - max_gradient then
                   (case getitem river_map ny nx of
                      Inl e \<Rightarrow> Inl (e, river_map)
                    | Inr v \<Rightarrow>
                        if v = 0 then
                          (case setitem river_map ny nx 2 of
                             Inl e \<Rightarrow> Inl (e, river_map)
                           | Inr river_map' \<Rightarrow> Inr (river_map', queue @ [(ny, nx)]))
                        else Inr (river_map, queue @ [(ny, nx)]))
                 else Inr (river_map, queue))
              else Inr (river_map, queue))))"

definition lake_scan :: "ndarray \<Rightarrow> real \<Rightarrow> real \<Rightarrow> real \<Rightarrow> int \<Rightarrow> int
    \<Rightarrow> ndarray \<Rightarrow> cell list \<Rightarrow> (py_error \<times> ndarray) + (ndarray \<times> cell list)" where
  "lake_scan elevation_map start_elevation lake_depth max_gradient cy cx river_map queue =
     fold (lake_step elevation_map start_elevation lake_depth max_gradient cy cx) offsets
       (Inr (river_map, queue))"

text \<open>
  Termination of the worklist loop: a scan only appends in-bounds cells, so either the set
  of cells that are in bounds or queued and not yet visited shrinks, or the queue does.
\<close>

lemma lake_step_queue:
  assumes "lake_step em s ld mg cy cx d (Inr (rm, q)) = Inr (rm', q')"
  shows "set q' \<subseteq> set q \<union> cells_of em"
  using assms
  by (cases d)
     (auto simp add: lake_step_def Let_def in_bounds_cells_of split: if_splits sum.splits)

lemma lake_step_Inl: "lake_step em s ld mg cy cx d (Inl e) = Inl e"
  by (simp add: lake_step_def)

lemma fold_lake_step_Inl: "fold (lake_step em s ld mg cy cx) ds (Inl e) = Inl e"
  by (induction ds) (simp_all add: lake_step_Inl)

lemma fold_lake_step_queue:
  assumes "fold (lake_step em s ld mg cy cx) ds (Inr (rm, q)) = Inr (rm', q')"
  shows "set q' \<subseteq> set q \<union> cells_of em"
  using assms
proof (induction ds arbitrary: rm q)
  case Nil
  then show ?case by auto
next
  case (Cons d ds)
  show ?case
  proof (cases "lake_step em s ld mg cy cx d (Inr (rm, q))")
    case (Inl e)
    with Cons.prems show ?thesis by (simp add: fold_lake_step_Inl)
  next
    case (Inr st)
    obtain rm1 q1 where st: "st = (rm1, q1)" by (cases st)
    from Cons.prems Inr st have "fold (lake_step em s ld mg cy cx) ds (Inr (rm1, q1)) = Inr (rm', q')"
      by simp
    from Cons.IH [OF this] lake_step_queue [OF Inr [unfolded st]]
    show ?thesis by blast
  qed
qed

lemma lake_scan_queue:
  assumes "lake_scan em s ld mg cy cx rm q = Inr (rm', q')"
  shows "set q' \<subseteq> set q \<union> cells_of em"
  using fold_lake_step_queue assms unfolding lake_scan_def by blast

function expand_loop :: "ndarray \<Rightarrow> real \<Rightarrow> real \<Rightarrow> real \<Rightarrow> cell list \<Rightarrow> cell set
    \<Rightarrow> ndarray \<Rightarrow> lake_result" where
  "expand_loop elevation_map start_elevation lake_depth max_gradient [] visited river_map =
     Inr river_map"
| "expand_loop elevation_map start_elevation lake_depth max_gradient ((cy, cx) # queue) visited river_map =
     (if (cy, cx) \<in> visited
      then expand_loop elevation_map start_elevation lake_depth max_gradient queue visited river_map
      else
        (case lake_scan elevation_map start_elevation lake_depth max_gradient cy cx river_map queue of
           Inl err \<Rightarrow> Inl err
         | Inr (river_map', queue') \<Rightarrow>
             expand_loop elevation_map start_elevation lake_depth max_gradient queue'
               (insert (cy, cx) visited) river_map'))"
  by pat_completeness auto
termination
proof (relation "measures [\<lambda>(em, s, ld, mg, q, vis, rm). card ((cells_of em \<union> set q) - vis),
                            \<lambda>(em, s, ld, mg, q, vis, rm). length q]")
  show "wf (measures [\<lambda>(em, s, ld, mg, q, vis, rm). card ((cells_of em \<union> set q) - vis),
                            \<lambda>(em :: ndarray, s :: real, ld :: real, mg :: real, q :: cell list, vis :: cell set, rm :: ndarray). length q])"
    by simp
next
  fix em :: ndarray and s ld mg :: real and cy cx :: int and queue :: "cell list"
    and visited :: "cell set" and rm :: ndarray
  assume "(cy, cx) \<in> visited"
  then have "(cells_of em \<union> set queue) - visited = (cells_of em \<union> set ((cy, cx) # queue)) - visited"
    by auto
  then show "((em, s, ld, mg, queue, visited, rm), (em, s, ld, mg, (cy, cx) # queue, visited, rm))
      \<in> measures [\<lambda>(em, s, ld, mg, q, vis, rm). card ((cells_of em \<union> set q) - vis),
                            \<lambda>(em, s, ld, mg, q, vis, rm). length q]"
    by simp
next
  fix em :: ndarray and s ld mg :: real and cy cx :: int and queue :: "cell list"
    and visited :: "cell set" and rm :: ndarray and st rm' queue'
  assume nv: "(cy, cx) \<notin> visited"
    and sc: "lake_scan em s ld mg cy cx rm queue = Inr st"
    and st: "(rm', queue') = st"
  from sc st have "lake_scan em s ld mg cy cx rm queue = Inr (rm', queue')" by simp
  from lake_scan_queue [OF this] have sub: "set queue' \<subseteq> set queue \<union> cells_of em" .
  have fin: "finite ((cells_of em \<union> set ((cy, cx) # queue)) - visited)"
    by (simp add: finite_cells_of)
  have "(cells_of em \<union> set queue') - insert (cy, cx) visited
          \<subset> (cells_of em \<union> set ((cy, cx) # queue)) - visited"
    using sub nv by auto
  from psubset_card_mono [OF fin this]
  show "((em, s, ld, mg, queue', insert (cy, cx) visited, rm'), (em, s, ld, mg, (cy, cx) # queue, visited, rm))
      \<in> measures [\<lambda>(em, s, ld, mg, q, vis, rm). card ((cells_of em \<union> set q) - vis),
                            \<lambda>(em, s, ld, mg, q, vis, rm). length q]"
    by simp
qed

declare expand_loop.simps [simp del]

definition expand_lake :: "int \<Rightarrow> int \<Rightarrow> ndarray \<Rightarrow> ndarray \<Rightarrow> real \<Rightarrow> real \<Rightarrow> lake_result" where
  "expand_lake y x elevation_map river_map lake_depth max_gradient =
     (case getitem elevation_map y x of
        Inl e \<Rightarrow> Inl (e, river_map)
      | Inr start_elevation \<Rightarrow>
          expand_loop elevation_map start_elevation lake_depth max_gradient [(y, x)] {} river_map)"

section \<open>River compositor\<close>

text \<open>
  \<^verbatim>\<open>def generate_rivers(self, elevation_map, water_map, water_sources):
      river_map = np.zeros(elevation_map.shape)
      for y, x in water_sources:
          path = self.find_downhill_water_path(y, x, elevation_map)
          width = 1
          for y, x in path:
              if water_map[y, x] >= 1:
                  width += water_map[y, x]
              river_map[y, x] = width
          y, x = path[-1]
          self.expand_lake(y, x, elevation_map, river_map)
      return river_map\<close>
  \<open>river_step\<close> is the body of the width loop on the state \<open>(width, river_map)\<close>,
  \<open>source_step\<close> the body of the loop over the sources.
\<close>

definition river_step :: "ndarray \<Rightarrow> cell \<Rightarrow> py_error + (real \<times> ndarray) \<Rightarrow> py_error + (real \<times> ndarray)" where
  "river_step water_map c st =
     (case st of
        Inl e \<Rightarrow> Inl e
      | Inr (width, river_map) \<Rightarrow>
          (case c of (y, x) \<Rightarrow>
             (case getitem water_map y x of
                Inl e \<Rightarrow> Inl e
              | Inr v \<Rightarrow>
                  (let width = (if v \<ge> 1 then width + v else width) in
                   case setitem river_map y x width of
                     Inl e \<Rightarrow> Inl e
                   | Inr river_map' \<Rightarrow> Inr (width, river_map')))))"

definition source_step :: "ndarray \<Rightarrow> ndarray \<Rightarrow> cell \<Rightarrow> py_error + ndarray \<Rightarrow> py_error + ndarray" where
  "source_step elevation_map water_map src st =
     (case st of
        Inl e \<Rightarrow> Inl e
      | Inr river_map \<Rightarrow>
          (case src of (y, x) \<Rightarrow>
             (case find_downhill_water_path y x elevation_map of
                Inl e \<Rightarrow> Inl e
              | Inr path \<Rightarrow>
                  (case fold (river_step water_map) path (Inr (1, river_map)) of
                     Inl e \<Rightarrow> Inl e
                   | Inr (width, river_map) \<Rightarrow>
                       (case path of
                          [] \<Rightarrow> Inl IndexError
                        | _ # _ \<Rightarrow>
                            (case last path of (y, x) \<Rightarrow>
                               (case expand_lake y x elevation_map river_map 100 50 of
                                  Inl (e, g) \<Rightarrow> Inl e
                                | Inr river_map \<Rightarrow> Inr river_map)))))))"

definition generate_rivers :: "ndarray \<Rightarrow> ndarray \<Rightarrow> cell list \<Rightarrow> py_error + ndarray" where
  "generate_rivers elevation_map water_map water_sources =
     fold (source_step elevation_map water_map) water_sources
       (Inr (zeros (shape0 elevation_map) (shape1 elevation_map)))"

section \<open>Standalone lake seeding\<close>

text \<open>
  \<^verbatim>\<open>def is_local_minimum(self, y, x, elevation_map):
      min_elevation = elevation_map[y, x]
      for dy in range(-1, 2):
          for dx in range(-1, 2):
              ny, nx = y + dy, x + dx
              if 0 <= ny < elevation_map.shape[0] and 0 <= nx < elevation_map.shape[1]:
                  if elevation_map[ny, nx] < min_elevation:
                      return False
      return True\<close>
\<close>

fun no_lower_neighbor :: "ndarray \<Rightarrow> int \<Rightarrow> int \<Rightarrow> real \<Rightarrow> (int \<times> int) list \<Rightarrow> bool" where
  "no_lower_neighbor elevation_map y x min_elevation [] = True"
| "no_lower_neighbor elevation_map y x min_elevation ((dy, dx) # ds) =
     (let ny = y + dy; nx = x + dx in
      if in_bounds elevation_map ny nx \<and> item elevation_map ny nx < min_elevation then False
      else no_lower_neighbor elevation_map y x min_elevation ds)"

definition is_local_minimum :: "int \<Rightarrow> int \<Rightarrow> ndarray \<Rightarrow> py_error + bool" where
  "is_local_minimum y x elevation_map =
     (case getitem elevation_map y x of
        Inl e \<Rightarrow> Inl e
      | Inr min_elevation \<Rightarrow> Inr (no_lower_neighbor elevation_map y x min_elevation offsets))"

text \<open>
  \<^verbatim>\<open>def generate_lakes(self, elevation_map, river_map):
      lakes_map = np.copy(river_map)
      for y in range(elevation_map.shape[0]):
          for x in range(elevation_map.shape[1]):
              if self.is_local_minimum(y, x, elevation_map):
                  self.expand_lake(y, x, elevation_map, lakes_map, lake_depth=50, max_gradient=50)
      return lakes_map\<close>
\<close>

definition lakes_step :: "ndarray \<Rightarrow> int \<Rightarrow> int \<Rightarrow> py_error + ndarray \<Rightarrow> py_error + ndarray" where
  "lakes_step elevation_map y x st =
     (case st of
        Inl e \<Rightarrow> Inl e
      | Inr lakes_map \<Rightarrow>
          (case is_local_minimum y x elevation_map of
             Inl e \<Rightarrow> Inl e
           | Inr is_min \<Rightarrow>
               if is_min then
                 (case expand_lake y x elevation_map lakes_map 50 50 of
                    Inl (e, g) \<Rightarrow> Inl e
                  | Inr lakes_map' \<Rightarrow> Inr lakes_map')
               else Inr lakes_map))"

definition generate_lakes :: "ndarray \<Rightarrow> ndarray \<Rightarrow> py_error + ndarray" where
  "generate_lakes elevation_map river_map =
     fold (\<lambda>y. fold (\<lambda>x. lakes_step elevation_map y x) (py_range (shape1 elevation_map)))
       (py_range (shape0 elevation_map)) (Inr river_map)"

section \<open>Network compositor\<close>

text \<open>
  \<^verbatim>\<open>def generate_merged_elevation_and_river_map(self, elevation_map, river_map):
      merged_map = np.copy(elevation_map)
      for y in range(elevation_map.shape[0]):
          for x in range(elevation_map.shape[1]):
              if river_map[y, x] > 0:
                  merged_map[y, x] = river_map[y, x]
      return merged_map\<close>
\<close>

definition merge_step :: "ndarray \<Rightarrow> int \<Rightarrow> int \<Rightarrow> py_error + ndarray \<Rightarrow> py_error + ndarray" where
  "merge_step river_map y x st =
     (case st of
        Inl e \<Rightarrow> Inl e
      | Inr merged_map \<Rightarrow>
          (case getitem river_map y x of
             Inl e \<Rightarrow> Inl e
           | Inr v \<Rightarrow> if v > 0 then setitem merged_map y x v else Inr merged_map))"

definition generate_merged_elevation_and_river_map :: "ndarray \<Rightarrow> ndarray \<Rightarrow> py_error + ndarray" where
  "generate_merged_elevation_and_river_map elevation_map river_map =
     fold (\<lambda>y. fold (\<lambda>x. merge_step river_map y x) (py_range (shape1 elevation_map)))
       (py_range (shape0 elevation_map)) (Inr elevation_map)"

chapter \<open>Vocabulary of the properties\<close>

text \<open>A concrete array from its rows, and an array read back as rows, for examples.\<close>

definition of_rows :: "nat \<Rightarrow> nat \<Rightarrow> real list list \<Rightarrow> ndarray" where
  "of_rows h w rows =
     \<lparr>shape0 = h, shape1 = w,
      item = \<lambda>r c. if 0 \<le> r \<and> r < int h \<and> 0 \<le> c \<and> c < int w
                     then rows ! nat r ! nat c else 0\<rparr>"

definition grid_rows :: "ndarray \<Rightarrow> real list list" where
  "grid_rows a = map (\<lambda>r. map (\<lambda>c. item a r c) (map int [0..<shape1 a])) (map int [0..<shape0 a])"

text \<open>The cells a water map marks as water.\<close>

definition water_cells :: "ndarray \<Rightarrow> cell set" where
  "water_cells water_map = {(y, x). in_bounds water_map y x \<and> item water_map y x = 1}"

text \<open>
  The flow tracer's contract: the 8-neighbours of a cell; the admissible next cells
  (\<open>candidates\<close>: in bounds, not visited, strictly below the current cell); a next cell of
  lowest elevation among them (\<open>is_steepest\<close>); and a path each of whose steps is steepest
  and whose last cell has no candidate (\<open>descent_from\<close>).
\<close>

definition neighbors8 :: "cell \<Rightarrow> cell list" where
  "neighbors8 c =
     (case c of (y, x) \<Rightarrow>
        [(y - 1, x - 1), (y - 1, x), (y - 1, x + 1),
         (y, x - 1), (y, x + 1),
         (y + 1, x - 1), (y + 1, x), (y + 1, x + 1)])"

definition candidates :: "ndarray \<Rightarrow> cell list \<Rightarrow> cell \<Rightarrow> cell list" where
  "candidates em visited c =
     filter (\<lambda>n. in_bounds em (fst n) (snd n) \<and> n \<notin> set visited
                  \<and> item em (fst n) (snd n) < item em (fst c) (snd c))
       (neighbors8 c)"

definition is_steepest :: "ndarray \<Rightarrow> cell list \<Rightarrow> cell \<Rightarrow> cell \<Rightarrow> bool" where
  "is_steepest em visited c n \<longleftrightarrow>
     n \<in> set (candidates em visited c) \<and>
     (\<forall>m \<in> set (candidates em visited c). item em (fst n) (snd n) \<le> item em (fst m) (snd m))"

fun descent_from :: "ndarray \<Rightarrow> cell list \<Rightarrow> cell list \<Rightarrow> bool" where
  "descent_from em visited [] \<longleftrightarrow> False"
| "descent_from em visited [c] \<longleftrightarrow> candidates em (visited @ [c]) c = []"
| "descent_from em visited (c # n # rest) \<longleftrightarrow>
     is_steepest em (visited @ [c]) c n \<and> descent_from em (visited @ [c]) (n # rest)"

text \<open>
  The lake expander's write contract: the grid a call leaves behind (\<open>final_grid\<close>), and the
  relation \<open>frame\<close> between the grid before and after: same shape, and every element either
  unchanged or changed from 0 to 2. \<open>covers\<close>: the river grid is at least as large as the
  elevation grid, so that no index operation of the expander can raise.
\<close>

definition final_grid :: "lake_result \<Rightarrow> ndarray" where
  "final_grid r = (case r of Inl (e, g) \<Rightarrow> g | Inr g \<Rightarrow> g)"

definition frame :: "ndarray \<Rightarrow> ndarray \<Rightarrow> bool" where
  "frame before after \<longleftrightarrow>
     shape0 after = shape0 before \<and> shape1 after = shape1 before \<and>
     (\<forall>r c. item after r c = item before r c \<or> (item before r c = 0 \<and> item after r c = 2))"

definition covers :: "ndarray \<Rightarrow> ndarray \<Rightarrow> bool" where
  "covers river_map elevation_map \<longleftrightarrow>
     shape0 elevation_map \<le> shape0 river_map \<and> shape1 elevation_map \<le> shape1 river_map"



text \<open>
  All indices in row-major order; local extrema, strict and non-strict, over the in-bounds
  8-neighbours; and the lake expander as \<^verbatim>\<open>generate_lakes\<close> calls it at one seed.
\<close>

definition all_cells :: "ndarray \<Rightarrow> cell list" where
  "all_cells a = List.product (py_range (shape0 a)) (py_range (shape1 a))"

definition local_maximum :: "ndarray \<Rightarrow> cell \<Rightarrow> bool" where
  "local_maximum em c \<longleftrightarrow>
     (\<forall>n \<in> set (neighbors8 c). in_bounds em (fst n) (snd n)
        \<longrightarrow> \<not> item em (fst c) (snd c) < item em (fst n) (snd n))"

definition strict_local_minimum :: "ndarray \<Rightarrow> cell \<Rightarrow> bool" where
  "strict_local_minimum em c \<longleftrightarrow>
     (\<forall>n \<in> set (neighbors8 c). in_bounds em (fst n) (snd n)
        \<longrightarrow> item em (fst c) (snd c) < item em (fst n) (snd n))"

definition weak_local_minimum :: "ndarray \<Rightarrow> cell \<Rightarrow> bool" where
  "weak_local_minimum em c \<longleftrightarrow>
     (\<forall>n \<in> set (neighbors8 c). in_bounds em (fst n) (snd n)
        \<longrightarrow> item em (fst c) (snd c) \<le> item em (fst n) (snd n))"

definition expand_at :: "ndarray \<Rightarrow> cell \<Rightarrow> py_error + ndarray \<Rightarrow> py_error + ndarray" where
  "expand_at em c st =
     (case st of
        Inl e \<Rightarrow> Inl e
      | Inr lakes_map \<Rightarrow>
          (case expand_lake (fst c) (snd c) em lakes_map 50 50 of
             Inl (e, g) \<Rightarrow> Inl e
           | Inr lakes_map' \<Rightarrow> Inr lakes_map'))"

text \<open>A grid with height 0 or width 0.\<close>

definition degenerate :: "ndarray \<Rightarrow> bool" where
  "degenerate a \<longleftrightarrow> shape0 a = 0 \<or> shape1 a = 0"

text \<open>
  The slope scenario: a corner of the grid and the corner opposite to it; a field that
  strictly decreases whenever a cell is replaced by another one at least as far from the
  peak along both axes (\<open>decreasing_from\<close>); and the \<open>i\<close>-th cell of the walk that moves away
  from the peak along both axes until it meets an edge (\<open>diagonal_cell\<close>).
\<close>

definition chebyshev :: "cell \<Rightarrow> cell \<Rightarrow> int" where
  "chebyshev a b = max \<bar>fst a - fst b\<bar> \<bar>snd a - snd b\<bar>"

definition is_corner :: "ndarray \<Rightarrow> cell \<Rightarrow> bool" where
  "is_corner em pk \<longleftrightarrow>
     0 < shape0 em \<and> 0 < shape1 em \<and>
     (fst pk = 0 \<or> fst pk = int (shape0 em) - 1) \<and>
     (snd pk = 0 \<or> snd pk = int (shape1 em) - 1)"

definition opposite_corner :: "ndarray \<Rightarrow> cell \<Rightarrow> cell" where
  "opposite_corner em pk = (int (shape0 em) - 1 - fst pk, int (shape1 em) - 1 - snd pk)"

definition decreasing_from :: "ndarray \<Rightarrow> cell \<Rightarrow> bool" where
  "decreasing_from em pk \<longleftrightarrow>
     (\<forall>c \<in> set (all_cells em). \<forall>c' \<in> set (all_cells em).
        \<bar>fst c - fst pk\<bar> \<le> \<bar>fst c' - fst pk\<bar> \<and> \<bar>snd c - snd pk\<bar> \<le> \<bar>snd c' - snd pk\<bar> \<and> c \<noteq> c'
        \<longrightarrow> item em (fst c') (snd c') < item em (fst c) (snd c))"

definition toward :: "int \<Rightarrow> int \<Rightarrow> nat \<Rightarrow> int" where
  "toward p n i = (if p = 0 then min (int i) (n - 1) else p - min (int i) (n - 1))"

definition diagonal_cell :: "ndarray \<Rightarrow> cell \<Rightarrow> nat \<Rightarrow> cell" where
  "diagonal_cell em pk i =
     (toward (fst pk) (int (shape0 em)) i, toward (snd pk) (int (shape1 em)) i)"

text \<open>
  The invariant of the scan, after the offsets in \<open>D\<close>: the running minimum is the current
  elevation while no admissible offset has been seen, and afterwards the elevation of the
  remembered cell, which is admissible and lowest among the admissible cells seen.
\<close>

definition is_cand :: "ndarray \<Rightarrow> cell list \<Rightarrow> int \<Rightarrow> int \<Rightarrow> real \<Rightarrow> int \<times> int \<Rightarrow> bool" where
  "is_cand em path y x cur d \<longleftrightarrow>
     in_bounds em (y + fst d) (x + snd d) \<and> (y + fst d, x + snd d) \<notin> set path
       \<and> item em (y + fst d) (x + snd d) < cur"

fun scan_inv :: "ndarray \<Rightarrow> cell list \<Rightarrow> int \<Rightarrow> int \<Rightarrow> real \<Rightarrow> (int \<times> int) set
    \<Rightarrow> real \<times> cell option \<Rightarrow> bool" where
  "scan_inv em path y x cur D (lowest, None) \<longleftrightarrow>
     lowest = cur \<and> (\<forall>d \<in> D. \<not> is_cand em path y x cur d)"
| "scan_inv em path y x cur D (lowest, Some n) \<longleftrightarrow>
     lowest < cur \<and>
     (\<exists>d \<in> D. is_cand em path y x cur d \<and> n = (y + fst d, x + snd d)) \<and>
     lowest = item em (fst n) (snd n) \<and>
     (\<forall>d \<in> D. is_cand em path y x cur d \<longrightarrow> lowest \<le> item em (y + fst d) (x + snd d))"

text \<open>The river grid held by a state of the expander's scan.\<close>

definition state_grid :: "(py_error \<times> ndarray) + (ndarray \<times> cell list) \<Rightarrow> ndarray" where
  "state_grid st = (case st of Inl (e, g) \<Rightarrow> g | Inr (g, q) \<Rightarrow> g)"

text \<open>Example grids.\<close>

definition slope3 :: ndarray where
  "slope3 = of_rows 3 3 [[9, 8, 7], [8, 6, 5], [7, 5, 3]]"

definition basin_em :: ndarray where "basin_em = of_rows 1 3 [[300, 10, 10]]"

definition basin_rm :: ndarray where "basin_rm = of_rows 1 3 [[1, 2, 0]]"



definition flat2 :: ndarray where "flat2 = of_rows 1 2 [[1, 1]]"

chapter \<open>Properties\<close>

section \<open>Water classifier: monotonicity in the water level\<close>

lemma generate_water_shape:
  "shape0 (generate_water em l) = shape0 em \<and> shape1 (generate_water em l) = shape1 em"
  by (simp add: generate_water_def mask_assign_def zeros_def Let_def)

lemma generate_water_item:
  "item (generate_water em l) y x = (if in_bounds em y x \<and> item em y x \<le> l then 1 else 0)"
  by (auto simp add: generate_water_def mask_assign_def zeros_def Let_def in_bounds_def)

lemma water_cells_generate_water:
  "water_cells (generate_water em l) = {(y, x). in_bounds em y x \<and> item em y x \<le> l}"
  by (auto simp add: water_cells_def generate_water_item in_bounds_def generate_water_shape)

text \<open>
  C8. Raising the water level only adds water cells: for \<open>level1 \<le> level2\<close> the
  cells \<^verbatim>\<open>generate_water\<close> marks as water at \<open>level1\<close> are a subset of those it
  marks at \<open>level2\<close>.
\<close>

theorem generate_water_monotone:
  assumes "level1 \<le> level2"
  shows "water_cells (generate_water elevation_map level1)
           \<subseteq> water_cells (generate_water elevation_map level2)"
  using assms by (auto simp add: water_cells_generate_water)

theorem generate_water_monotone_witness:
  "(2::real) \<le> 5 \<and>
   water_cells (generate_water (of_rows 3 3 [[5, 5, 5], [5, 1, 5], [5, 5, 5]]) 2)
     \<subseteq> water_cells (generate_water (of_rows 3 3 [[5, 5, 5], [5, 1, 5], [5, 5, 5]]) 5) \<and>
   (1, 1) \<in> water_cells (generate_water (of_rows 3 3 [[5, 5, 5], [5, 1, 5], [5, 5, 5]]) 2) \<and>
   (0, 0) \<notin> water_cells (generate_water (of_rows 3 3 [[5, 5, 5], [5, 1, 5], [5, 5, 5]]) 2) \<and>
   (0, 0) \<in> water_cells (generate_water (of_rows 3 3 [[5, 5, 5], [5, 1, 5], [5, 5, 5]]) 5)"
proof -
  have le: "(2::real) \<le> 5" by simp
  have sub: "water_cells (generate_water (of_rows 3 3 [[5, 5, 5], [5, 1, 5], [5, 5, 5]]) 2)
     \<subseteq> water_cells (generate_water (of_rows 3 3 [[5, 5, 5], [5, 1, 5], [5, 5, 5]]) 5)"
    using generate_water_monotone [OF le] .
  have "(1, 1) \<in> water_cells (generate_water (of_rows 3 3 [[5, 5, 5], [5, 1, 5], [5, 5, 5]]) 2)"
    by (simp add: water_cells_generate_water in_bounds_def of_rows_def)
  moreover have "(0, 0) \<notin> water_cells (generate_water (of_rows 3 3 [[5, 5, 5], [5, 1, 5], [5, 5, 5]]) 2)"
    by (simp add: water_cells_generate_water in_bounds_def of_rows_def)
  moreover have "(0, 0) \<in> water_cells (generate_water (of_rows 3 3 [[5, 5, 5], [5, 1, 5], [5, 5, 5]]) 5)"
    by (simp add: water_cells_generate_water in_bounds_def of_rows_def)
  ultimately show ?thesis using le sub by blast
qed

section \<open>Flow tracer: the scan returns a lowest admissible neighbour\<close>

lemma lower_step_eq:
  "lower_step em path y x d (lowest, nxt) =
     (if is_cand em path y x lowest d then (item em (y + fst d) (x + snd d), Some (y + fst d, x + snd d))
      else (lowest, nxt))"
  by (cases d) (simp add: lower_step_def is_cand_def Let_def)

lemma is_cand_mono: "is_cand em path y x l d \<Longrightarrow> l \<le> cur \<Longrightarrow> is_cand em path y x cur d"
  by (simp add: is_cand_def)

lemma is_cand_lt: "is_cand em path y x l d \<Longrightarrow> item em (y + fst d) (x + snd d) < l"
  by (simp add: is_cand_def)

lemma not_is_cand_le:
  "is_cand em path y x cur d \<Longrightarrow> \<not> is_cand em path y x l d \<Longrightarrow> l \<le> item em (y + fst d) (x + snd d)"
  by (simp add: is_cand_def)

lemma scan_inv_step:
  assumes "scan_inv em path y x cur D st"
  shows "scan_inv em path y x cur (insert d D) (lower_step em path y x d st)"
proof (cases st)
  case (Pair lowest nxt)
  show ?thesis
  proof (cases nxt)
    case None
    with Pair assms have l: "lowest = cur" and D: "\<forall>d \<in> D. \<not> is_cand em path y x cur d"
      by simp_all
    show ?thesis
    proof (cases "is_cand em path y x cur d")
      case True
      then show ?thesis
        using D is_cand_lt [OF True] unfolding Pair None l lower_step_eq by simp
    next
      case False
      then show ?thesis using D unfolding Pair None l lower_step_eq by simp
    qed
  next
    case (Some n)
    with Pair assms have l: "lowest < cur" "lowest = item em (fst n) (snd n)"
      and n: "\<exists>d \<in> D. is_cand em path y x cur d \<and> n = (y + fst d, x + snd d)"
      and D: "\<forall>d \<in> D. is_cand em path y x cur d \<longrightarrow> lowest \<le> item em (y + fst d) (x + snd d)"
      by auto
    show ?thesis
    proof (cases "is_cand em path y x lowest d")
      case True
      have c: "is_cand em path y x cur d" using is_cand_mono [OF True] l(1) by simp
      have lt: "item em (y + fst d) (x + snd d) < lowest" by (rule is_cand_lt [OF True])
      have "\<forall>d' \<in> D. is_cand em path y x cur d' \<longrightarrow>
          item em (y + fst d) (x + snd d) \<le> item em (y + fst d') (x + snd d')"
        using D lt by fastforce
      then show ?thesis
        using c lt l(1) True unfolding Pair Some lower_step_eq by simp
    next
      case False
      have "is_cand em path y x cur d \<longrightarrow> lowest \<le> item em (y + fst d) (x + snd d)"
        using not_is_cand_le [OF _ False] by blast
      then show ?thesis
        using False l n D unfolding Pair Some lower_step_eq by auto
    qed
  qed
qed

lemma scan_inv_fold:
  assumes "scan_inv em path y x cur D st"
  shows "scan_inv em path y x cur (D \<union> set ds) (fold (lower_step em path y x) ds st)"
  using assms
proof (induction ds arbitrary: D st)
  case Nil
  then show ?case by simp
next
  case (Cons d ds)
  from scan_inv_step [OF Cons.prems]
  have "scan_inv em path y x cur (insert d D) (lower_step em path y x d st)" .
  from Cons.IH [OF this] show ?case by simp
qed

lemma scan_inv_final:
  "scan_inv em path y x cur (set offsets) (fold (lower_step em path y x) offsets (cur, None))"
proof -
  have "scan_inv em path y x cur {} (cur, None)" by simp
  from scan_inv_fold [OF this, of offsets] show ?thesis by simp
qed


lemma neighbors8_offsets:
  "set (neighbors8 (y, x)) = (\<lambda>d. (y + fst d, x + snd d)) ` (set offsets - {(0, 0)})"
  by (simp add: neighbors8_def offsets_def insert_Diff_if insert_commute)

lemma set_candidates:
  assumes "(y, x) \<in> set visited"
  shows "set (candidates em visited (y, x)) =
     (\<lambda>d. (y + fst d, x + snd d)) ` {d \<in> set offsets. is_cand em visited y x (item em y x) d}"
proof -
  have z: "\<not> is_cand em visited y x (item em y x) (0, 0)"
    using assms by (simp add: is_cand_def)
  have "set (candidates em visited (y, x)) =
      (\<lambda>d. (y + fst d, x + snd d)) ` {d \<in> set offsets - {(0, 0)}. is_cand em visited y x (item em y x) d}"
    unfolding candidates_def set_filter neighbors8_offsets
    by (auto simp add: is_cand_def)
  also have "{d \<in> set offsets - {(0, 0)}. is_cand em visited y x (item em y x) d}
      = {d \<in> set offsets. is_cand em visited y x (item em y x) d}"
    using z by auto
  finally show ?thesis .
qed

lemma lowest_neighbor_None:
  assumes "lowest_neighbor em path y x (item em y x) = None" and "(y, x) \<in> set path"
  shows "candidates em path (y, x) = []"
proof -
  obtain lowest where f: "fold (lower_step em path y x) offsets (item em y x, None) = (lowest, None)"
    using assms(1) by (cases "fold (lower_step em path y x) offsets (item em y x, None)")
      (simp add: lowest_neighbor_def)
  have "scan_inv em path y x (item em y x) (set offsets) (lowest, None)"
    using scan_inv_final [of em path y x "item em y x"] unfolding f .
  then have "{d \<in> set offsets. is_cand em path y x (item em y x) d} = {}" by simp
  then have "set (candidates em path (y, x)) = {}"
    unfolding set_candidates [OF assms(2)] by simp
  then show ?thesis by simp
qed

lemma lowest_neighbor_steepest:
  assumes "lowest_neighbor em path y x (item em y x) = Some n" and "(y, x) \<in> set path"
  shows "is_steepest em path (y, x) n"
proof -
  obtain lowest where f: "fold (lower_step em path y x) offsets (item em y x, None) = (lowest, Some n)"
    using assms(1) by (cases "fold (lower_step em path y x) offsets (item em y x, None)")
      (simp add: lowest_neighbor_def)
  have inv: "scan_inv em path y x (item em y x) (set offsets) (lowest, Some n)"
    using scan_inv_final [of em path y x "item em y x"] unfolding f .
  then have l: "lowest = item em (fst n) (snd n)" by simp
  from inv have "n \<in> set (candidates em path (y, x))"
    unfolding set_candidates [OF assms(2)] by auto
  moreover have "\<forall>m \<in> set (candidates em path (y, x)). item em (fst n) (snd n) \<le> item em (fst m) (snd m)"
    unfolding set_candidates [OF assms(2)] using inv l by auto
  ultimately show ?thesis by (simp add: is_steepest_def)
qed

section \<open>Flow tracer: termination, no revisit, steepest descent\<close>

lemma getitem_in_bounds: "in_bounds a y x \<Longrightarrow> getitem a y x = Inr (item a y x)"
  by (simp add: getitem_def norm_index_def in_bounds_def)

lemma trace_loop_stop:
  assumes "in_bounds em y x" and "lowest_neighbor em (path @ [(y, x)]) y x (item em y x) = None"
  shows "trace_loop em path y x = Inr (path @ [(y, x)])"
  by (subst trace_loop.simps) (simp add: getitem_in_bounds assms)

lemma trace_loop_move:
  assumes "in_bounds em y x"
    and "lowest_neighbor em (path @ [(y, x)]) y x (item em y x) = Some (ny, nx)"
  shows "trace_loop em path y x = trace_loop em (path @ [(y, x)]) ny nx"
proof -
  have "item em ny nx < item em y x"
    using lowest_neighbor_Some [OF assms(2)] by simp
  then show ?thesis
    by (subst trace_loop.simps) (simp add: getitem_in_bounds assms)
qed

lemma trace_loop_correct:
  assumes "in_bounds em y x" and "distinct path" and "(y, x) \<notin> set path"
    and "set path \<subseteq> cells_of em"
  shows "\<exists>p. trace_loop em path y x = Inr (path @ (y, x) # p)
           \<and> distinct (path @ (y, x) # p)
           \<and> set (path @ (y, x) # p) \<subseteq> cells_of em
           \<and> descent_from em path ((y, x) # p)"
  using assms
proof (induction em path y x rule: trace_loop.induct)
  case (1 em path y x)
  let ?path' = "path @ [(y, x)]"
  have mem: "(y, x) \<in> set ?path'" by simp
  show ?case
  proof (cases "lowest_neighbor em ?path' y x (item em y x)")
    case None
    have "trace_loop em path y x = Inr (path @ (y, x) # [])"
      using trace_loop_stop [OF "1.prems"(1) None] by simp
    moreover have "descent_from em path ((y, x) # [])"
      using lowest_neighbor_None [OF None mem] by simp
    moreover have "distinct (path @ (y, x) # [])" using "1.prems" by simp
    moreover have "set (path @ (y, x) # []) \<subseteq> cells_of em"
      using "1.prems" by (simp add: in_bounds_cells_of)
    ultimately show ?thesis by blast
  next
    case (Some n)
    obtain ny nx where n: "n = (ny, nx)" by (cases n)
    note S = Some [unfolded n]
    from lowest_neighbor_Some [OF S]
    have ib: "in_bounds em ny nx" and nin: "(ny, nx) \<notin> set ?path'"
      and lt: "item em ny nx < item em y x" by simp_all
    have d': "distinct ?path'" using "1.prems" by simp
    have s': "set ?path' \<subseteq> cells_of em" using "1.prems" by (simp add: in_bounds_cells_of)
    have nle: "\<not> item em y x \<le> item em ny nx" using lt by simp
    from "1.IH" [OF refl getitem_in_bounds [OF "1.prems"(1)] S refl nle ib d' nin s']
    obtain p where p: "trace_loop em ?path' ny nx = Inr (?path' @ (ny, nx) # p)"
      "distinct (?path' @ (ny, nx) # p)" "set (?path' @ (ny, nx) # p) \<subseteq> cells_of em"
      "descent_from em ?path' ((ny, nx) # p)" by blast
    have st: "is_steepest em ?path' (y, x) (ny, nx)"
      using lowest_neighbor_steepest [OF S mem] .
    have "trace_loop em path y x = Inr (path @ (y, x) # ((ny, nx) # p))"
      using trace_loop_move [OF "1.prems"(1) S] p(1) by simp
    moreover have "distinct (path @ (y, x) # ((ny, nx) # p))" using p(2) by simp
    moreover have "set (path @ (y, x) # ((ny, nx) # p)) \<subseteq> cells_of em" using p(3) by simp
    moreover have "descent_from em path ((y, x) # ((ny, nx) # p))" using st p(4) by simp
    ultimately show ?thesis by blast
  qed
qed

lemma descent_from_nth:
  assumes "descent_from em visited p" and "Suc i < length p"
  shows "is_steepest em (visited @ take (Suc i) p) (p ! i) (p ! Suc i)"
  using assms
proof (induction em visited p arbitrary: i rule: descent_from.induct)
  case (3 em visited c n rest)
  show ?case
  proof (cases i)
    case 0
    with "3.prems" show ?thesis by simp
  next
    case (Suc j)
    with "3.prems" have "Suc j < length (n # rest)" by simp
    from "3.IH" [OF _ this] "3.prems"(1)
    have "is_steepest em ((visited @ [c]) @ take (Suc j) (n # rest)) ((n # rest) ! j) ((n # rest) ! Suc j)"
      by simp
    then show ?thesis using Suc by simp
  qed
qed simp_all

lemma descent_from_last:
  assumes "descent_from em visited p"
  shows "candidates em (visited @ p) (last p) = []"
  using assms
  by (induction em visited p rule: descent_from.induct) simp_all

lemma card_cells_of: "card (cells_of a) = shape0 a * shape1 a"
  by (simp add: cells_of_def card_cartesian_product)

lemma find_downhill_water_path_correct:
  assumes "in_bounds em y x"
  shows "\<exists>p. find_downhill_water_path y x em = Inr ((y, x) # p)
           \<and> distinct ((y, x) # p)
           \<and> set ((y, x) # p) \<subseteq> cells_of em
           \<and> descent_from em [] ((y, x) # p)"
  using trace_loop_correct [OF assms, of "[]"]
  by (simp add: find_downhill_water_path_def)

lemmas trace_eval =
  find_downhill_water_path_def trace_loop.simps lowest_neighbor_def offsets_def lower_step_def
  getitem_def norm_index_def in_bounds_def of_rows_def Let_def

lemma slope3_path:
  "find_downhill_water_path 0 0 slope3 = Inr [(0, 0), (1, 1), (2, 2)]"
  by (simp add: slope3_def trace_eval)

lemma slope3_in_bounds: "in_bounds slope3 0 0"
  by (simp add: slope3_def in_bounds_def of_rows_def)

text \<open>
  C1. For every elevation field and every in-bounds start cell,
  \<^verbatim>\<open>find_downhill_water_path\<close> terminates (the loop is a total function, and it returns a
  path rather than raising), the number of cells it appends, one per loop iteration, is at
  most width times height, and the returned path has no repeated cell.
\<close>

theorem trace_terminates_no_revisit:
  assumes "in_bounds elevation_map y x"
  shows "\<exists>path. find_downhill_water_path y x elevation_map = Inr path
           \<and> length path \<le> shape0 elevation_map * shape1 elevation_map
           \<and> distinct path"
proof -
  from find_downhill_water_path_correct [OF assms]
  obtain p where p: "find_downhill_water_path y x elevation_map = Inr ((y, x) # p)"
    "distinct ((y, x) # p)" "set ((y, x) # p) \<subseteq> cells_of elevation_map" by blast
  have "length ((y, x) # p) = card (set ((y, x) # p))"
    using distinct_card [OF p(2)] by simp
  also have "\<dots> \<le> card (cells_of elevation_map)"
    by (rule card_mono [OF finite_cells_of p(3)])
  finally have "length ((y, x) # p) \<le> shape0 elevation_map * shape1 elevation_map"
    by (simp add: card_cells_of)
  with p show ?thesis by blast
qed

theorem trace_terminates_no_revisit_witness:
  "in_bounds slope3 0 0 \<and>
   find_downhill_water_path 0 0 slope3 = Inr [(0, 0), (1, 1), (2, 2)] \<and>
   length [(0, 0), (1, 1), (2, 2) :: cell] \<le> shape0 slope3 * shape1 slope3 \<and>
   distinct [(0, 0), (1, 1), (2, 2) :: cell]"
proof -
  from trace_terminates_no_revisit [OF slope3_in_bounds]
  obtain path where p: "find_downhill_water_path 0 0 slope3 = Inr path"
    "length path \<le> shape0 slope3 * shape1 slope3" "distinct path" by blast
  from p(1) have "path = [(0, 0), (1, 1), (2, 2)]" by (simp add: slope3_path)
  with p slope3_in_bounds show ?thesis by simp
qed

text \<open>
  C3. For every elevation field and in-bounds start cell the returned path is nonempty and
  begins at the start; each next cell is an in-bounds 8-neighbour of the previous one that
  is not yet on the path, lies strictly below the previous cell, and has the lowest elevation
  among all such neighbours (\<open>is_steepest\<close>); and the path ends at a cell with no such
  neighbour (\<open>candidates\<close> is empty), so a start without one yields the one-cell path.
\<close>

theorem trace_steepest_descent:
  assumes "in_bounds elevation_map y x"
  shows "\<exists>path. find_downhill_water_path y x elevation_map = Inr path
           \<and> path \<noteq> [] \<and> hd path = (y, x)
           \<and> (\<forall>i. Suc i < length path \<longrightarrow>
                 is_steepest elevation_map (take (Suc i) path) (path ! i) (path ! Suc i))
           \<and> candidates elevation_map path (last path) = []"
proof -
  from find_downhill_water_path_correct [OF assms]
  obtain p where p: "find_downhill_water_path y x elevation_map = Inr ((y, x) # p)"
    "descent_from elevation_map [] ((y, x) # p)" by blast
  have "\<forall>i. Suc i < length ((y, x) # p) \<longrightarrow>
     is_steepest elevation_map (take (Suc i) ((y, x) # p)) (((y, x) # p) ! i) (((y, x) # p) ! Suc i)"
    using descent_from_nth [OF p(2)] by simp
  moreover have "candidates elevation_map ((y, x) # p) (last ((y, x) # p)) = []"
    using descent_from_last [OF p(2)] by simp
  ultimately show ?thesis using p(1) by (intro exI [of _ "(y, x) # p"]) simp
qed

theorem trace_steepest_descent_witness:
  "in_bounds slope3 0 0 \<and>
   find_downhill_water_path 0 0 slope3 = Inr [(0, 0), (1, 1), (2, 2)] \<and>
   is_steepest slope3 [(0, 0)] (0, 0) (1, 1) \<and>
   is_steepest slope3 [(0, 0), (1, 1)] (1, 1) (2, 2) \<and>
   candidates slope3 [(0, 0), (1, 1), (2, 2)] (2, 2) = []"
proof -
  from trace_steepest_descent [OF slope3_in_bounds]
  obtain path where p: "find_downhill_water_path 0 0 slope3 = Inr path"
    and st: "\<forall>i. Suc i < length path \<longrightarrow>
                 is_steepest slope3 (take (Suc i) path) (path ! i) (path ! Suc i)"
    and en: "candidates slope3 path (last path) = []" by blast
  from p have path: "path = [(0, 0), (1, 1), (2, 2)]" by (simp add: slope3_path)
  from st [rule_format, of 0] have "is_steepest slope3 [(0, 0)] (0, 0) (1, 1)"
    unfolding path by simp
  moreover from st [rule_format, of 1] have "is_steepest slope3 [(0, 0), (1, 1)] (1, 1) (2, 2)"
    unfolding path by simp
  moreover from en have "candidates slope3 [(0, 0), (1, 1), (2, 2)] (2, 2) = []"
    unfolding path by simp
  ultimately show ?thesis using slope3_in_bounds slope3_path by simp
qed

section \<open>Lake expander: write contract and normal return\<close>

lemma frame_refl: "frame a a"
  by (simp add: frame_def)

lemma frame_trans: "frame a b \<Longrightarrow> frame b c \<Longrightarrow> frame a c"
  unfolding frame_def by (metis zero_neq_numeral)

lemma setitem_frame:
  assumes "getitem rm y x = Inr 0" and "setitem rm y x 2 = Inr rm'"
  shows "frame rm rm'"
  using assms
  by (auto simp add: getitem_def setitem_def frame_def split: sum.splits if_splits)

lemma lake_step_frame:
  "frame (state_grid st) (state_grid (lake_step em s ld mg cy cx d st))"
proof (cases st)
  case (Inl err)
  then show ?thesis by (simp add: lake_step_def frame_refl)
next
  case (Inr p)
  obtain rm q where p: "p = (rm, q)" by (cases p)
  obtain dy dx where d: "d = (dy, dx)" by (cases d)
  show ?thesis
    unfolding Inr p d
    by (auto simp add: lake_step_def state_grid_def Let_def frame_refl setitem_frame
        split: sum.splits)
qed

lemma fold_lake_step_frame:
  "frame (state_grid st) (state_grid (fold (lake_step em s ld mg cy cx) ds st))"
proof (induction ds arbitrary: st)
  case Nil
  show ?case by (simp add: frame_refl)
next
  case (Cons d ds)
  show ?case
    using frame_trans [OF lake_step_frame Cons.IH] by simp
qed

lemma lake_scan_frame_Inr:
  assumes "lake_scan em s ld mg cy cx rm q = Inr (rm', q')"
  shows "frame rm rm'"
  using fold_lake_step_frame [of "Inr (rm, q)" em s ld mg cy cx offsets] assms
  by (simp add: lake_scan_def state_grid_def)

lemma lake_scan_frame_Inl:
  assumes "lake_scan em s ld mg cy cx rm q = Inl (e, g)"
  shows "frame rm g"
  using fold_lake_step_frame [of "Inr (rm, q)" em s ld mg cy cx offsets] assms
  by (simp add: lake_scan_def state_grid_def)

lemma expand_loop_frame:
  "frame rm (final_grid (expand_loop em s ld mg q vis rm))"
proof (induction em s ld mg q vis rm rule: expand_loop.induct)
  case (1 em s ld mg vis rm)
  show ?case by (simp add: expand_loop.simps final_grid_def frame_refl)
next
  case (2 em s ld mg cy cx queue vis rm)
  show ?case
  proof (cases "(cy, cx) \<in> vis")
    case True
    with "2.IH"(1) show ?thesis by (simp add: expand_loop.simps)
  next
    case False
    show ?thesis
    proof (cases "lake_scan em s ld mg cy cx rm queue")
      case (Inl err)
      obtain e g where err: "err = (e, g)" by (cases err)
      from lake_scan_frame_Inl [OF Inl [unfolded err]] show ?thesis
        using False Inl err by (simp add: expand_loop.simps final_grid_def)
    next
      case (Inr st)
      obtain rm' q' where st: "st = (rm', q')" by (cases st)
      from "2.IH"(2) [OF False Inr st [symmetric]]
      have "frame rm' (final_grid (expand_loop em s ld mg q' (insert (cy, cx) vis) rm'))" .
      from frame_trans [OF lake_scan_frame_Inr [OF Inr [unfolded st]] this]
      show ?thesis using False Inr st by (simp add: expand_loop.simps)
    qed
  qed
qed

lemma expand_lake_frame:
  "frame rm (final_grid (expand_lake y x em rm ld mg))"
  by (cases "getitem em y x")
     (simp_all add: expand_lake_def final_grid_def frame_refl expand_loop_frame [unfolded final_grid_def])

lemma covers_frame: "covers rm em \<Longrightarrow> frame rm rm' \<Longrightarrow> covers rm' em"
  by (simp add: covers_def frame_def)

lemma lake_step_ok:
  assumes "covers rm em"
  shows "\<exists>rm' q'. lake_step em s ld mg cy cx d (Inr (rm, q)) = Inr (rm', q')"
proof -
  obtain dy dx where d: "d = (dy, dx)" by (cases d)
  have g: "in_bounds em (cy + dy) (cx + dx) \<Longrightarrow>
      getitem rm (cy + dy) (cx + dx) = Inr (item rm (cy + dy) (cx + dx))"
    using assms by (intro getitem_in_bounds) (simp add: in_bounds_def covers_def)
  have st: "in_bounds em (cy + dy) (cx + dx) \<Longrightarrow> \<exists>rm'. setitem rm (cy + dy) (cx + dx) 2 = Inr rm'"
    using assms by (simp add: setitem_def norm_index_def in_bounds_def covers_def)
  show ?thesis unfolding d
    using g st by (auto simp add: lake_step_def Let_def split: sum.splits)
qed

lemma fold_lake_step_ok:
  assumes "covers rm em"
  shows "\<exists>rm' q'. fold (lake_step em s ld mg cy cx) ds (Inr (rm, q)) = Inr (rm', q')"
  using assms
proof (induction ds arbitrary: rm q)
  case Nil
  then show ?case by simp
next
  case (Cons d ds)
  from lake_step_ok [OF Cons.prems] obtain rm1 q1
    where s1: "lake_step em s ld mg cy cx d (Inr (rm, q)) = Inr (rm1, q1)" by blast
  have "frame rm rm1"
    using lake_step_frame [of "Inr (rm, q)" em s ld mg cy cx d] s1 by (simp add: state_grid_def)
  from covers_frame [OF Cons.prems this] have "covers rm1 em" .
  from Cons.IH [OF this] show ?case using s1 by simp
qed

lemma expand_loop_ok:
  assumes "covers rm em"
  shows "\<exists>rm'. expand_loop em s ld mg q vis rm = Inr rm'"
  using assms
proof (induction em s ld mg q vis rm rule: expand_loop.induct)
  case (1 em s ld mg vis rm)
  show ?case by (simp add: expand_loop.simps)
next
  case (2 em s ld mg cy cx queue vis rm)
  show ?case
  proof (cases "(cy, cx) \<in> vis")
    case True
    with "2.IH"(1) "2.prems" show ?thesis by (simp add: expand_loop.simps)
  next
    case False
    from fold_lake_step_ok [OF "2.prems"] obtain rm' q'
      where sc: "lake_scan em s ld mg cy cx rm queue = Inr (rm', q')"
      unfolding lake_scan_def by blast
    from covers_frame [OF "2.prems" lake_scan_frame_Inr [OF sc]] have "covers rm' em" .
    from "2.IH"(2) [OF False sc refl this] show ?thesis
      using False sc by (simp add: expand_loop.simps)
  qed
qed

lemma expand_lake_ok:
  assumes "in_bounds em y x" and "covers rm em"
  shows "\<exists>rm'. expand_lake y x em rm ld mg = Inr rm'"
  using expand_loop_ok [OF assms(2)] getitem_in_bounds [OF assms(1)]
  by (simp add: expand_lake_def)

lemmas lake_eval =
  expand_lake_def expand_loop.simps lake_scan_def lake_step_def offsets_def
  getitem_def setitem_def norm_index_def in_bounds_def of_rows_def Let_def

lemma basin_lake:
  "map_sum fst grid_rows (expand_lake 0 1 basin_em basin_rm 100 50) = Inr [[1, 2, 2]]"
  by (simp add: basin_em_def basin_rm_def lake_eval grid_rows_def upt_conv_Cons)

lemma basin_lake2:
  "\<exists>g. expand_lake 0 1 basin_em basin_rm 100 50 = Inr g \<and> item g 0 0 = 1 \<and> item g 0 1 = 2 \<and> item g 0 2 = 2"
  by (simp add: basin_em_def basin_rm_def lake_eval)

lemma basin_in_bounds: "in_bounds basin_em 0 1"
  by (simp add: basin_em_def in_bounds_def of_rows_def)

lemma basin_covers: "covers basin_rm basin_em"
  by (simp add: basin_em_def basin_rm_def covers_def of_rows_def)

lemma basin_rm_items: "item basin_rm 0 0 = 1 \<and> item basin_rm 0 1 = 2 \<and> item basin_rm 0 2 = 0"
  by (simp add: basin_rm_def of_rows_def)

text \<open>
  C2. Whatever the seed, the grids and the limits, \<^verbatim>\<open>expand_lake\<close> terminates (the loop is a
  total function) and leaves the river grid with its shape, with every cell that was nonzero
  unchanged, and with every changed cell having been 0 and now holding the lake value 2;
  this also holds for the grid left behind when an index operation raises. For an in-bounds
  seed and a river grid at least as large as the elevation grid the call returns normally.
\<close>

theorem expand_lake_frame_effect:
  "shape0 (final_grid (expand_lake y x elevation_map river_map lake_depth max_gradient))
      = shape0 river_map \<and>
   shape1 (final_grid (expand_lake y x elevation_map river_map lake_depth max_gradient))
      = shape1 river_map \<and>
   (\<forall>r c. item river_map r c \<noteq> 0 \<longrightarrow>
      item (final_grid (expand_lake y x elevation_map river_map lake_depth max_gradient)) r c
        = item river_map r c) \<and>
   (\<forall>r c. item (final_grid (expand_lake y x elevation_map river_map lake_depth max_gradient)) r c
        \<noteq> item river_map r c \<longrightarrow>
      item river_map r c = 0 \<and>
      item (final_grid (expand_lake y x elevation_map river_map lake_depth max_gradient)) r c = 2) \<and>
   (in_bounds elevation_map y x \<and> covers river_map elevation_map \<longrightarrow>
      (\<exists>river_map'. expand_lake y x elevation_map river_map lake_depth max_gradient
          = Inr river_map'))"
proof -
  let ?g = "final_grid (expand_lake y x elevation_map river_map lake_depth max_gradient)"
  have f: "frame river_map ?g" by (rule expand_lake_frame)
  have "shape0 ?g = shape0 river_map" "shape1 ?g = shape1 river_map"
    using f by (simp_all add: frame_def)
  moreover have "\<forall>r c. item river_map r c \<noteq> 0 \<longrightarrow> item ?g r c = item river_map r c"
    using f unfolding frame_def by blast
  moreover have "\<forall>r c. item ?g r c \<noteq> item river_map r c \<longrightarrow>
      item river_map r c = 0 \<and> item ?g r c = 2"
    using f unfolding frame_def by blast
  moreover have "in_bounds elevation_map y x \<and> covers river_map elevation_map \<longrightarrow>
      (\<exists>river_map'. expand_lake y x elevation_map river_map lake_depth max_gradient
          = Inr river_map')"
    using expand_lake_ok by blast
  ultimately show ?thesis by blast
qed

theorem expand_lake_frame_effect_witness:
  "in_bounds basin_em 0 1 \<and> covers basin_rm basin_em \<and>
   (\<exists>g. expand_lake 0 1 basin_em basin_rm 100 50 = Inr g) \<and>
   item basin_rm 0 0 = 1 \<and>
   item (final_grid (expand_lake 0 1 basin_em basin_rm 100 50)) 0 0 = 1 \<and>
   item basin_rm 0 1 = 2 \<and>
   item (final_grid (expand_lake 0 1 basin_em basin_rm 100 50)) 0 1 = 2 \<and>
   item basin_rm 0 2 = 0 \<and>
   item (final_grid (expand_lake 0 1 basin_em basin_rm 100 50)) 0 2 = 2"
proof -
  note t = expand_lake_frame_effect [of 0 1 basin_em basin_rm 100 50]
  from t basin_in_bounds basin_covers
  have ok: "\<exists>g. expand_lake 0 1 basin_em basin_rm 100 50 = Inr g" by blast
  from t have keep: "\<forall>r c. item basin_rm r c \<noteq> 0 \<longrightarrow>
      item (final_grid (expand_lake 0 1 basin_em basin_rm 100 50)) r c = item basin_rm r c"
    by blast
  have k0: "item (final_grid (expand_lake 0 1 basin_em basin_rm 100 50)) 0 0 = 1"
    using keep [rule_format, of 0 0] basin_rm_items by simp
  have k1: "item (final_grid (expand_lake 0 1 basin_em basin_rm 100 50)) 0 1 = 2"
    using keep [rule_format, of 0 1] basin_rm_items by simp
  have k2: "item (final_grid (expand_lake 0 1 basin_em basin_rm 100 50)) 0 2 = 2"
    using basin_lake2 by (auto simp add: final_grid_def)
  show ?thesis using basin_in_bounds basin_covers ok basin_rm_items k0 k1 k2 by simp
qed

section \<open>Lake value and river width\<close>

lemma setitem_in_bounds:
  "in_bounds a y x \<Longrightarrow>
     setitem a y x v = Inr (a\<lparr>item := \<lambda>r c. if r = y \<and> c = x then v else item a r c\<rparr>)"
  by (simp add: setitem_def norm_index_def in_bounds_def)

lemma river_step_writes_width:
  assumes "river_step wm (cy, cx) (Inr (w, rm)) = Inr (w', rm')" and "in_bounds rm cy cx"
  shows "item rm' cy cx = w'"
  using assms
  by (auto simp add: river_step_def Let_def setitem_in_bounds split: sum.splits if_splits)

lemmas river_eval =
  generate_rivers_def source_step_def river_step_def generate_water_def mask_assign_def zeros_def

lemma basin_path: "find_downhill_water_path 0 0 basin_em = Inr [(0, 0), (0, 1)]"
  by (simp add: basin_em_def trace_eval)

lemma basin_rivers:
  "map_sum id grid_rows (generate_rivers basin_em (generate_water basin_em 10) [(0, 0)])
     = Inr [[1, 2, 2]]"
  by (simp add: basin_path river_eval)
     (simp add: basin_em_def lake_eval grid_rows_def upt_conv_Cons)

text \<open>
  C10. Every cell \<^verbatim>\<open>expand_lake\<close> modifies holds 2 afterwards, and a cell at which the width
  loop of \<^verbatim>\<open>generate_rivers\<close> arrives with accumulated width 2 is written with 2 as well: in
  the resulting grid a lake cell and a river cell of width 2 hold the same value.
\<close>

theorem lake_sentinel_is_width_two:
  "(\<forall>r c. item (final_grid (expand_lake y x elevation_map river_map lake_depth max_gradient)) r c
        \<noteq> item river_map r c \<longrightarrow>
      item (final_grid (expand_lake y x elevation_map river_map lake_depth max_gradient)) r c = 2) \<and>
   (in_bounds river_map' cy cx \<and>
    river_step water_map (cy, cx) (Inr (width, river_map')) = Inr (2, river_map'') \<longrightarrow>
      item river_map'' cy cx = 2)"
proof -
  have "frame river_map (final_grid (expand_lake y x elevation_map river_map lake_depth max_gradient))"
    by (rule expand_lake_frame)
  then have "\<forall>r c. item (final_grid (expand_lake y x elevation_map river_map lake_depth max_gradient)) r c
        \<noteq> item river_map r c \<longrightarrow>
      item (final_grid (expand_lake y x elevation_map river_map lake_depth max_gradient)) r c = 2"
    unfolding frame_def by blast
  then show ?thesis using river_step_writes_width by blast
qed

theorem lake_sentinel_is_width_two_witness:
  "item basin_rm 0 2 = 0 \<and>
   item (final_grid (expand_lake 0 1 basin_em basin_rm 100 50)) 0 2 = 2 \<and>
   (\<exists>g. river_step (generate_water basin_em 10) (0, 1) (Inr (1, zeros 1 3)) = Inr (2, g)
        \<and> item g 0 1 = 2) \<and>
   find_downhill_water_path 0 0 basin_em = Inr [(0, 0), (0, 1)] \<and>
   map_sum id grid_rows (generate_rivers basin_em (generate_water basin_em 10) [(0, 0)])
     = Inr [[1, 2, 2]]"
proof -
  have ne: "item (final_grid (expand_lake 0 1 basin_em basin_rm 100 50)) 0 2 \<noteq> item basin_rm 0 2"
    using basin_lake2 basin_rm_items by (auto simp add: final_grid_def)
  obtain g where g: "river_step (generate_water basin_em 10) (0, 1) (Inr (1, zeros 1 3)) = Inr (2, g)"
    by (simp add: river_step_def generate_water_def mask_assign_def zeros_def basin_em_def
        getitem_def setitem_def norm_index_def in_bounds_def of_rows_def Let_def)
  have ib: "in_bounds (zeros 1 3) 0 1" by (simp add: zeros_def in_bounds_def)
  note t = lake_sentinel_is_width_two [of 0 1 basin_em basin_rm 100 50 "zeros 1 3" 0 1
      "generate_water basin_em 10" 1 g]
  from t ne have "item (final_grid (expand_lake 0 1 basin_em basin_rm 100 50)) 0 2 = 2" by blast
  moreover from t ib g have "item g 0 1 = 2" by blast
  ultimately show ?thesis using g basin_rm_items basin_path basin_rivers by blast
qed

section \<open>Standalone lake seeds\<close>

lemma no_lower_neighbor_iff:
  "no_lower_neighbor em y x m ds \<longleftrightarrow>
     (\<forall>d \<in> set ds. \<not> (in_bounds em (y + fst d) (x + snd d) \<and> item em (y + fst d) (x + snd d) < m))"
  by (induction ds) (auto simp add: Let_def split: if_splits)

lemma is_local_minimum_weak:
  assumes "in_bounds em y x"
  shows "is_local_minimum y x em = Inr (weak_local_minimum em (y, x))"
proof -
  have "no_lower_neighbor em y x (item em y x) offsets \<longleftrightarrow> weak_local_minimum em (y, x)"
    unfolding no_lower_neighbor_iff weak_local_minimum_def neighbors8_offsets
    by (auto simp add: not_less)
  then show ?thesis
    by (simp add: is_local_minimum_def getitem_in_bounds [OF assms])
qed

lemma fold_product:
  "fold (\<lambda>y. fold (\<lambda>x. f y x) xs) ys = fold (\<lambda>(y, x). f y x) (List.product ys xs)"
  by (induction ys) (simp_all add: fold_map comp_def)

lemma fold_if_filter:
  "fold (\<lambda>c. if P c then f c else id) cs = fold f (filter P cs)"
  by (induction cs) auto

lemma set_py_range: "set (py_range n) = {0..<int n}"
proof
  show "set (py_range n) \<subseteq> {0..<int n}" by (auto simp add: py_range_def)
  show "{0..<int n} \<subseteq> set (py_range n)"
  proof
    fix i assume "i \<in> {0..<int n}"
    then have "nat i \<in> set [0..<n]" and "i = int (nat i)" by auto
    then show "i \<in> set (py_range n)" unfolding py_range_def set_map by (rule rev_image_eqI)
  qed
qed

lemma in_all_cells: "c \<in> set (all_cells a) \<longleftrightarrow> in_bounds a (fst c) (snd c)"
  by (cases c) (auto simp add: all_cells_def set_py_range in_bounds_def)

lemma lakes_step_weak:
  assumes "in_bounds em y x"
  shows "lakes_step em y x = (if weak_local_minimum em (y, x) then expand_at em (y, x) else id)"
proof
  fix st
  show "lakes_step em y x st = (if weak_local_minimum em (y, x) then expand_at em (y, x) else id) st"
    by (cases st) (simp_all add: lakes_step_def expand_at_def is_local_minimum_weak [OF assms])
qed

lemma generate_lakes_seeds:
  "generate_lakes em rm =
     fold (expand_at em) (filter (weak_local_minimum em) (all_cells em)) (Inr rm)"
proof -
  have "generate_lakes em rm = fold (\<lambda>(y, x). lakes_step em y x) (all_cells em) (Inr rm)"
    by (simp add: generate_lakes_def all_cells_def fold_product)
  also have "\<dots> = fold (\<lambda>c. if weak_local_minimum em c then expand_at em c else id)
      (all_cells em) (Inr rm)"
    by (rule fold_cong) (auto simp add: in_all_cells lakes_step_weak)
  finally show ?thesis by (simp add: fold_if_filter)
qed

lemmas minimum_eval =
  is_local_minimum_def offsets_def getitem_def norm_index_def in_bounds_def of_rows_def Let_def

lemmas lakes_eval =
  generate_lakes_def lakes_step_def py_range_def upt_conv_Cons

text \<open>
  C5, as stated, fails on a plateau: in the flat field \<open>[[1, 1]]\<close> no cell is a strict local
  minimum, yet \<^verbatim>\<open>is_local_minimum\<close> holds at \<open>(0, 0)\<close> and \<^verbatim>\<open>generate_lakes\<close> runs the lake
  expander there, turning the empty river grid into lake cells.
\<close>

theorem lake_seed_strict_counterexample:
  "is_local_minimum 0 0 flat2 = Inr True \<and>
   \<not> strict_local_minimum flat2 (0, 0) \<and>
   filter (strict_local_minimum flat2) (all_cells flat2) = [] \<and>
   map_sum id grid_rows (generate_lakes flat2 (zeros 1 2)) = Inr [[2, 2]]"
proof -
  have a: "is_local_minimum 0 0 flat2 = Inr True"
    by (simp add: flat2_def minimum_eval)
  have b: "\<not> strict_local_minimum flat2 (0, 0)"
    by (simp add: flat2_def strict_local_minimum_def neighbors8_def in_bounds_def of_rows_def)
  have c: "filter (strict_local_minimum flat2) (all_cells flat2) = []"
    by (simp add: flat2_def strict_local_minimum_def neighbors8_def in_bounds_def of_rows_def
        all_cells_def py_range_def upt_conv_Cons)
  have d: "map_sum id grid_rows (generate_lakes flat2 (zeros 1 2)) = Inr [[2, 2]]"
    by (simp add: flat2_def lakes_eval minimum_eval zeros_def lake_eval grid_rows_def)
  from a b c d show ?thesis by blast
qed

text \<open>
  C5, amended. \<^verbatim>\<open>generate_lakes\<close> invokes the lake expander (with depth 50 and gradient 50),
  in row-major order, at exactly the cells none of whose in-bounds 8-neighbours is strictly
  lower (\<open>weak_local_minimum\<close>: every in-bounds neighbour is greater or equal).
\<close>

theorem lake_seeds_are_weak_minima:
  "generate_lakes elevation_map river_map =
     fold (expand_at elevation_map)
       (filter (weak_local_minimum elevation_map) (all_cells elevation_map)) (Inr river_map)"
  by (rule generate_lakes_seeds)

theorem lake_seeds_are_weak_minima_witness:
  "filter (weak_local_minimum slope3) (all_cells slope3) = [(2, 2)] \<and>
   generate_lakes slope3 (zeros 3 3) = fold (expand_at slope3) [(2, 2)] (Inr (zeros 3 3)) \<and>
   filter (weak_local_minimum flat2) (all_cells flat2) = [(0, 0), (0, 1)] \<and>
   generate_lakes flat2 (zeros 1 2) = fold (expand_at flat2) [(0, 0), (0, 1)] (Inr (zeros 1 2))"
proof -
  have a: "filter (weak_local_minimum slope3) (all_cells slope3) = [(2, 2)]"
    by (simp add: slope3_def weak_local_minimum_def neighbors8_def in_bounds_def of_rows_def
        all_cells_def py_range_def upt_conv_Cons)
  have b: "filter (weak_local_minimum flat2) (all_cells flat2) = [(0, 0), (0, 1)]"
    by (simp add: flat2_def weak_local_minimum_def neighbors8_def in_bounds_def of_rows_def
        all_cells_def py_range_def upt_conv_Cons)
  show ?thesis
    using lake_seeds_are_weak_minima [of slope3 "zeros 3 3"]
      lake_seeds_are_weak_minima [of flat2 "zeros 1 2"] a b by simp
qed

section \<open>Source detector: returned sources\<close>

lemma no_higher_neighbor_iff:
  "no_higher_neighbor em y x m ds \<longleftrightarrow>
     (\<forall>d \<in> set ds. d \<noteq> (0, 0) \<longrightarrow>
        \<not> (in_bounds em (y + fst d) (x + snd d) \<and> m < item em (y + fst d) (x + snd d)))"
proof (induction ds)
  case Nil
  show ?case by simp
next
  case (Cons d ds)
  obtain dy dx where d: "d = (dy, dx)" by (cases d)
  show ?case
  proof (cases "dy = 0 \<and> dx = 0")
    case True
    then show ?thesis using Cons.IH unfolding d by simp
  next
    case False
    then show ?thesis using Cons.IH unfolding d by (auto simp add: Let_def)
  qed
qed

lemma is_local_maximum_spec:
  assumes "in_bounds em y x"
  shows "is_local_maximum y x em = Inr (local_maximum em (y, x))"
proof -
  have "local_maximum em (y, x) \<longleftrightarrow>
      (\<forall>d \<in> set offsets - {(0, 0)}. in_bounds em (y + fst d) (x + snd d)
         \<longrightarrow> \<not> item em y x < item em (y + fst d) (x + snd d))"
    unfolding local_maximum_def neighbors8_offsets by simp
  also have "\<dots> \<longleftrightarrow> no_higher_neighbor em y x (item em y x) offsets"
    unfolding no_higher_neighbor_iff by blast
  finally have "no_higher_neighbor em y x (item em y x) offsets \<longleftrightarrow> local_maximum em (y, x)"
    by simp
  then show ?thesis
    by (simp add: is_local_maximum_def getitem_in_bounds [OF assms])
qed

lemma set_argwhere:
  "set (argwhere a p) = {(y, x). in_bounds a y x \<and> p (item a y x)}"
  by (auto simp add: argwhere_def set_py_range in_bounds_def)

lemma keep_local_maxima_sound:
  assumes "keep_local_maxima em cs = Inr r" and "c \<in> set r"
  shows "c \<in> set cs \<and> is_local_maximum (fst c) (snd c) em = Inr True"
  using assms
proof (induction em cs arbitrary: r rule: keep_local_maxima.induct)
  case (1 em)
  then show ?case by simp
next
  case (2 em y x sources)
  from "2.prems"(1) obtain keep rest where k: "is_local_maximum y x em = Inr keep"
    and r: "keep_local_maxima em sources = Inr rest"
    and res: "r = (if keep then (y, x) # rest else rest)"
    by (auto split: sum.splits)
  show ?case
  proof (cases "c \<in> set rest")
    case True
    from "2.IH" [OF k r True] show ?thesis by simp
  next
    case False
    with "2.prems"(2) res have "keep" and "c = (y, x)" by (auto split: if_splits)
    with k show ?thesis by simp
  qed
qed

text \<open>
  C4. Every coordinate \<^verbatim>\<open>find_water_sources\<close> returns is an in-bounds cell whose elevation is
  strictly greater than the threshold the percentile routine computed over all cells, and
  none of its in-bounds 8-neighbours has strictly greater elevation. The percentile routine
  is a parameter: the statement holds whatever threshold it yields.
\<close>

theorem sources_above_threshold_and_maximal:
  assumes "find_water_sources percentile_fn elevation_map percentile = Inr sources"
    and "(y, x) \<in> set sources"
  shows "\<exists>threshold. percentile_fn (ravel elevation_map) percentile = Inr threshold
           \<and> in_bounds elevation_map y x
           \<and> threshold < item elevation_map y x
           \<and> (\<forall>n \<in> set (neighbors8 (y, x)). in_bounds elevation_map (fst n) (snd n)
                 \<longrightarrow> \<not> item elevation_map y x < item elevation_map (fst n) (snd n))"
proof -
  from assms(1) obtain threshold
    where t: "percentile_fn (ravel elevation_map) percentile = Inr threshold"
      and k: "keep_local_maxima elevation_map (argwhere elevation_map (\<lambda>v. v > threshold))
                = Inr sources"
    by (auto simp add: find_water_sources_def split: sum.splits)
  from keep_local_maxima_sound [OF k assms(2)]
  have a: "(y, x) \<in> set (argwhere elevation_map (\<lambda>v. v > threshold))"
    and m: "is_local_maximum y x elevation_map = Inr True" by simp_all
  from a have ib: "in_bounds elevation_map y x" and gt: "threshold < item elevation_map y x"
    by (simp_all add: set_argwhere)
  from m is_local_maximum_spec [OF ib] have "local_maximum elevation_map (y, x)" by simp
  then have "\<forall>n \<in> set (neighbors8 (y, x)). in_bounds elevation_map (fst n) (snd n)
                 \<longrightarrow> \<not> item elevation_map y x < item elevation_map (fst n) (snd n)"
    by (simp add: local_maximum_def)
  with t ib gt show ?thesis by blast
qed

lemmas sources_eval =
  find_water_sources_def np_percentile_def ravel_def argwhere_def is_local_maximum_def
  py_range_def upt_conv_Cons offsets_def getitem_def norm_index_def in_bounds_def of_rows_def Let_def

lemma slope3_percentile: "np_percentile (ravel slope3) 50 = Inr 7"
  by (simp add: slope3_def np_percentile_def ravel_def py_range_def upt_conv_Cons of_rows_def Let_def)

lemma slope3_sources: "find_water_sources np_percentile slope3 50 = Inr [(0, 0)]"
  by (simp add: slope3_def sources_eval)

theorem sources_above_threshold_and_maximal_witness:
  "find_water_sources np_percentile slope3 50 = Inr [(0, 0)] \<and>
   np_percentile (ravel slope3) 50 = Inr 7 \<and>
   in_bounds slope3 0 0 \<and> (7::real) < item slope3 0 0 \<and> item slope3 0 0 = 9 \<and>
   local_maximum slope3 (0, 0)"
proof -
  have m: "(0, 0) \<in> set [(0, 0) :: cell]" by simp
  from sources_above_threshold_and_maximal [OF slope3_sources m]
  obtain threshold where t: "np_percentile (ravel slope3) 50 = Inr threshold"
    and gt: "threshold < item slope3 0 0"
    and mx: "\<forall>n \<in> set (neighbors8 (0, 0)). in_bounds slope3 (fst n) (snd n)
                 \<longrightarrow> \<not> item slope3 0 0 < item slope3 (fst n) (snd n)"
    by blast
  from t have "threshold = 7" by (simp add: slope3_percentile)
  moreover have "item slope3 0 0 = 9" by (simp add: slope3_def of_rows_def)
  moreover from mx have "local_maximum slope3 (0, 0)" by (simp add: local_maximum_def)
  ultimately show ?thesis using slope3_sources slope3_percentile slope3_in_bounds gt by simp
qed

section \<open>Configuration out of range\<close>























section \<open>Degenerate grids\<close>

lemma py_range_0: "py_range 0 = []"
  by (simp add: py_range_def)

lemma fold_const_id: "fold (\<lambda>y. id) ys = id"
  by (induction ys) simp_all

lemma degenerate_loops:
  assumes "degenerate a"
  shows "fold (\<lambda>y. fold (f y) (py_range (shape1 a))) (py_range (shape0 a)) st = st"
proof (cases "shape0 a = 0")
  case True
  then show ?thesis by (simp add: py_range_0)
next
  case False
  with assms have "shape1 a = 0" by (simp add: degenerate_def)
  then show ?thesis by (simp add: py_range_0 fold_const_id)
qed

lemma degenerate_ravel: "degenerate a \<Longrightarrow> ravel a = []"
  by (auto simp add: degenerate_def ravel_def py_range_0)

lemma degenerate_argwhere: "degenerate a \<Longrightarrow> argwhere a p = []"
  by (auto simp add: degenerate_def argwhere_def py_range_0)

lemma degenerate_cells_of: "degenerate a \<Longrightarrow> cells_of a = {}"
  by (auto simp add: degenerate_def cells_of_def)

text \<open>
  C7, as stated, fails for \<^verbatim>\<open>find_water_sources\<close>: on a grid of height 0 it passes the empty
  array to the percentile routine, which raises, and the error propagates.
\<close>

theorem degenerate_find_sources_counterexample:
  "degenerate (zeros 0 3) \<and> find_water_sources np_percentile (zeros 0 3) 95 = Inl IndexError"
  by (simp add: degenerate_def zeros_def find_water_sources_def np_percentile_def ravel_def py_range_def)

text \<open>
  C7, amended. On a grid with height 0 or width 0, \<^verbatim>\<open>generate_water\<close> returns an array of the
  same shape with no cells, \<^verbatim>\<open>generate_rivers\<close> over an empty source list returns the zero
  array of that shape, and \<^verbatim>\<open>generate_lakes\<close> and the merge return their input grid, none
  of them failing. \<^verbatim>\<open>find_water_sources\<close> has no guard of its own: it returns the empty list
  when the percentile routine yields a threshold for the empty array, and fails with that
  routine's error otherwise.
\<close>

theorem degenerate_grid_outputs:
  assumes "degenerate elevation_map"
  shows "shape0 (generate_water elevation_map water_level) = shape0 elevation_map
    \<and> shape1 (generate_water elevation_map water_level) = shape1 elevation_map
    \<and> cells_of (generate_water elevation_map water_level) = {}
    \<and> find_water_sources percentile_fn elevation_map percentile
         = (case percentile_fn [] percentile of Inl e \<Rightarrow> Inl e | Inr threshold \<Rightarrow> Inr [])
    \<and> generate_rivers elevation_map water_map []
         = Inr (zeros (shape0 elevation_map) (shape1 elevation_map))
    \<and> cells_of (zeros (shape0 elevation_map) (shape1 elevation_map)) = {}
    \<and> generate_lakes elevation_map river_map = Inr river_map
    \<and> generate_merged_elevation_and_river_map elevation_map river_map = Inr elevation_map"
proof -
  have w: "degenerate (generate_water elevation_map water_level)"
    using assms by (simp add: degenerate_def generate_water_shape)
  have z: "degenerate (zeros (shape0 elevation_map) (shape1 elevation_map))"
    using assms by (simp add: degenerate_def zeros_def)
  have "find_water_sources percentile_fn elevation_map percentile
         = (case percentile_fn [] percentile of Inl e \<Rightarrow> Inl e | Inr threshold \<Rightarrow> Inr [])"
    by (simp add: find_water_sources_def degenerate_ravel [OF assms] degenerate_argwhere [OF assms]
        split: sum.splits)
  moreover have "generate_rivers elevation_map water_map []
         = Inr (zeros (shape0 elevation_map) (shape1 elevation_map))"
    by (simp add: generate_rivers_def)
  moreover have "generate_lakes elevation_map river_map = Inr river_map"
    unfolding generate_lakes_def by (rule degenerate_loops [OF assms])
  moreover have "generate_merged_elevation_and_river_map elevation_map river_map = Inr elevation_map"
    unfolding generate_merged_elevation_and_river_map_def by (rule degenerate_loops [OF assms])
  ultimately show ?thesis
    using degenerate_cells_of [OF w] degenerate_cells_of [OF z]
    by (simp add: generate_water_shape)
qed

theorem degenerate_grid_outputs_witness:
  "degenerate (zeros 0 3) \<and>
   shape0 (generate_water (zeros 0 3) 2) = 0 \<and> shape1 (generate_water (zeros 0 3) 2) = 3 \<and>
   cells_of (generate_water (zeros 0 3) 2) = {} \<and>
   find_water_sources (\<lambda>a q. Inr 0) (zeros 0 3) 95 = Inr [] \<and>
   find_water_sources np_percentile (zeros 0 3) 95 = Inl IndexError \<and>
   generate_rivers (zeros 0 3) (zeros 0 3) [] = Inr (zeros 0 3) \<and>
   generate_lakes (zeros 0 3) (zeros 0 3) = Inr (zeros 0 3) \<and>
   generate_merged_elevation_and_river_map (zeros 0 3) (zeros 0 3) = Inr (zeros 0 3)"
proof -
  have d: "degenerate (zeros 0 3)" by (simp add: degenerate_def zeros_def)
  have s: "shape0 (zeros 0 3) = 0" "shape1 (zeros 0 3) = 3" by (simp_all add: zeros_def)
  have p: "np_percentile [] 95 = Inl IndexError" by (simp add: np_percentile_def)
  note a = degenerate_grid_outputs [OF d, of 2 "\<lambda>a q. Inr 0" 95 "zeros 0 3" "zeros 0 3"]
  note b = degenerate_grid_outputs [OF d, of 2 np_percentile 95 "zeros 0 3" "zeros 0 3"]
  from a b d s p show ?thesis by simp
qed

section \<open>The slope scenario\<close>

lemma toward_dist:
  assumes "0 < n" and "p = 0 \<or> p = n - 1"
  shows "\<bar>toward p n i - p\<bar> = min (int i) (n - 1)"
  using assms by (auto simp add: toward_def)

lemma toward_range:
  assumes "0 < n" and "p = 0 \<or> p = n - 1"
  shows "0 \<le> toward p n i \<and> toward p n i < n"
  using assms by (auto simp add: toward_def)

lemma toward_0:
  assumes "0 < n"
  shows "toward p n 0 = p"
  using assms by (simp add: toward_def)

lemma toward_last:
  assumes "0 < n" and "p = 0 \<or> p = n - 1" and "n - 1 \<le> int i"
  shows "toward p n i = n - 1 - p"
  using assms by (auto simp add: toward_def)

lemma toward_step:
  assumes "0 < n" and "p = 0 \<or> p = n - 1"
  shows "\<bar>toward p n (Suc i) - toward p n i\<bar> \<le> 1"
  using assms by (auto simp add: toward_def)

lemma bounded_dist:
  fixes n p y :: int
  assumes "0 < n" and "p = 0 \<or> p = n - 1" and "0 \<le> y" and "y < n"
  shows "\<bar>y - p\<bar> \<le> n - 1"
  using assms by auto

lemma in_neighbors8:
  "(a, b) \<in> set (neighbors8 (y, x)) \<longleftrightarrow> \<bar>a - y\<bar> \<le> 1 \<and> \<bar>b - x\<bar> \<le> 1 \<and> (a, b) \<noteq> (y, x)"
proof
  assume "(a, b) \<in> set (neighbors8 (y, x))"
  then show "\<bar>a - y\<bar> \<le> 1 \<and> \<bar>b - x\<bar> \<le> 1 \<and> (a, b) \<noteq> (y, x)"
    by (auto simp add: neighbors8_def)
next
  assume r: "\<bar>a - y\<bar> \<le> 1 \<and> \<bar>b - x\<bar> \<le> 1 \<and> (a, b) \<noteq> (y, x)"
  then have "a = y - 1 \<or> a = y \<or> a = y + 1" and "b = x - 1 \<or> b = x \<or> b = x + 1"
    by arith+
  with r show "(a, b) \<in> set (neighbors8 (y, x))"
    by (auto simp add: neighbors8_def)
qed

lemma in_candidates:
  "n \<in> set (candidates em visited c) \<longleftrightarrow>
     n \<in> set (neighbors8 c) \<and> in_bounds em (fst n) (snd n) \<and> n \<notin> set visited
       \<and> item em (fst n) (snd n) < item em (fst c) (snd c)"
  by (auto simp add: candidates_def)

lemma decreasing_fromD:
  assumes "decreasing_from em pk" and "in_bounds em y x" and "in_bounds em y' x'"
    and "\<bar>y - fst pk\<bar> \<le> \<bar>y' - fst pk\<bar>" and "\<bar>x - snd pk\<bar> \<le> \<bar>x' - snd pk\<bar>"
    and "(y, x) \<noteq> (y', x')"
  shows "item em y' x' < item em y x"
proof -
  have "(y, x) \<in> set (all_cells em)" and "(y', x') \<in> set (all_cells em)"
    using assms(2,3) by (simp_all add: in_all_cells)
  from assms(1) [unfolded decreasing_from_def, rule_format, OF this] assms(4,5,6)
  show ?thesis by simp
qed

lemma diagonal_cell_in_bounds:
  assumes "is_corner em pk"
  shows "in_bounds em (fst (diagonal_cell em pk i)) (snd (diagonal_cell em pk i))"
proof -
  have "0 < int (shape0 em)" "0 < int (shape1 em)"
    "fst pk = 0 \<or> fst pk = int (shape0 em) - 1" "snd pk = 0 \<or> snd pk = int (shape1 em) - 1"
    using assms by (simp_all add: is_corner_def)
  from toward_range [OF this(1,3)] toward_range [OF this(2,4)]
  show ?thesis by (simp add: in_bounds_def diagonal_cell_def)
qed

lemma diagonal_cell_dist:
  assumes "is_corner em pk"
  shows "\<bar>fst (diagonal_cell em pk i) - fst pk\<bar> = min (int i) (int (shape0 em) - 1)"
    and "\<bar>snd (diagonal_cell em pk i) - snd pk\<bar> = min (int i) (int (shape1 em) - 1)"
proof -
  have "0 < int (shape0 em)" "0 < int (shape1 em)"
    "fst pk = 0 \<or> fst pk = int (shape0 em) - 1" "snd pk = 0 \<or> snd pk = int (shape1 em) - 1"
    using assms by (simp_all add: is_corner_def)
  from toward_dist [OF this(1,3)] toward_dist [OF this(2,4)]
  show "\<bar>fst (diagonal_cell em pk i) - fst pk\<bar> = min (int i) (int (shape0 em) - 1)"
    and "\<bar>snd (diagonal_cell em pk i) - snd pk\<bar> = min (int i) (int (shape1 em) - 1)"
    by (simp_all add: diagonal_cell_def)
qed

lemma in_bounds_dist:
  assumes "is_corner em pk" and "in_bounds em y x"
  shows "\<bar>y - fst pk\<bar> \<le> int (shape0 em) - 1" and "\<bar>x - snd pk\<bar> \<le> int (shape1 em) - 1"
proof -
  have c: "0 < int (shape0 em)" "0 < int (shape1 em)"
    "fst pk = 0 \<or> fst pk = int (shape0 em) - 1" "snd pk = 0 \<or> snd pk = int (shape1 em) - 1"
    using assms(1) by (simp_all add: is_corner_def)
  have b: "0 \<le> y" "y < int (shape0 em)" "0 \<le> x" "x < int (shape1 em)"
    using assms(2) by (simp_all add: in_bounds_def)
  show "\<bar>y - fst pk\<bar> \<le> int (shape0 em) - 1" by (rule bounded_dist [OF c(1,3) b(1,2)])
  show "\<bar>x - snd pk\<bar> \<le> int (shape1 em) - 1" by (rule bounded_dist [OF c(2,4) b(3,4)])
qed

lemma diagonal_cell_near:
  assumes "is_corner em pk"
  shows "\<bar>fst (diagonal_cell em pk (Suc i)) - fst (diagonal_cell em pk i)\<bar> \<le> 1"
    and "\<bar>snd (diagonal_cell em pk (Suc i)) - snd (diagonal_cell em pk i)\<bar> \<le> 1"
proof -
  have "0 < int (shape0 em)" "0 < int (shape1 em)"
    "fst pk = 0 \<or> fst pk = int (shape0 em) - 1" "snd pk = 0 \<or> snd pk = int (shape1 em) - 1"
    using assms by (simp_all add: is_corner_def)
  from toward_step [OF this(1,3)] toward_step [OF this(2,4)]
  show "\<bar>fst (diagonal_cell em pk (Suc i)) - fst (diagonal_cell em pk i)\<bar> \<le> 1"
    and "\<bar>snd (diagonal_cell em pk (Suc i)) - snd (diagonal_cell em pk i)\<bar> \<le> 1"
    by (simp_all add: diagonal_cell_def)
qed

lemma diagonal_cell_fresh:
  assumes "is_corner em pk" and "Suc i < max (shape0 em) (shape1 em)" and "j \<le> i"
  shows "diagonal_cell em pk j \<noteq> diagonal_cell em pk (Suc i)"
proof
  assume e: "diagonal_cell em pk j = diagonal_cell em pk (Suc i)"
  have "min (int j) (int (shape0 em) - 1) = min (int (Suc i)) (int (shape0 em) - 1)"
    using diagonal_cell_dist(1) [OF assms(1), of j] diagonal_cell_dist(1) [OF assms(1), of "Suc i"] e
    by simp
  moreover have "min (int j) (int (shape1 em) - 1) = min (int (Suc i)) (int (shape1 em) - 1)"
    using diagonal_cell_dist(2) [OF assms(1), of j] diagonal_cell_dist(2) [OF assms(1), of "Suc i"] e
    by simp
  ultimately show False using assms(2,3) by (auto simp add: min_def max_def split: if_splits)
qed

lemma diagonal_step:
  assumes c: "is_corner em pk" and d: "decreasing_from em pk"
    and i: "Suc i < max (shape0 em) (shape1 em)"
    and cur: "diagonal_cell em pk i = (cy, cx)"
  shows "lowest_neighbor em (map (diagonal_cell em pk) [0..<Suc i]) cy cx (item em cy cx)
           = Some (diagonal_cell em pk (Suc i))"
proof -
  let ?path = "map (diagonal_cell em pk) [0..<Suc i]"
  obtain ty tx where t: "diagonal_cell em pk (Suc i) = (ty, tx)"
    by (cases "diagonal_cell em pk (Suc i)")
  have mem: "(cy, cx) \<in> set ?path" using cur by force
  have ibc: "in_bounds em cy cx" using diagonal_cell_in_bounds [OF c, of i] cur by simp
  have ibt: "in_bounds em ty tx" using diagonal_cell_in_bounds [OF c, of "Suc i"] t by simp
  have dcy: "\<bar>cy - fst pk\<bar> = min (int i) (int (shape0 em) - 1)"
    and dcx: "\<bar>cx - snd pk\<bar> = min (int i) (int (shape1 em) - 1)"
    using diagonal_cell_dist [OF c, of i] cur by simp_all
  have dty: "\<bar>ty - fst pk\<bar> = min (int (Suc i)) (int (shape0 em) - 1)"
    and dtx: "\<bar>tx - snd pk\<bar> = min (int (Suc i)) (int (shape1 em) - 1)"
    using diagonal_cell_dist [OF c, of "Suc i"] t by simp_all
  have ne: "(cy, cx) \<noteq> (ty, tx)"
    using diagonal_cell_fresh [OF c i, of i] cur t by simp
  have near: "\<bar>ty - cy\<bar> \<le> 1" "\<bar>tx - cx\<bar> \<le> 1"
    using diagonal_cell_near [OF c, of i] cur t by simp_all
  have nb: "(ty, tx) \<in> set (neighbors8 (cy, cx))"
    unfolding in_neighbors8 using near ne by auto
  have fresh: "(ty, tx) \<notin> set ?path"
  proof
    assume "(ty, tx) \<in> set ?path"
    then have "(ty, tx) \<in> diagonal_cell em pk ` {0..<Suc i}" by (simp only: set_map set_upt)
    then obtain j where "(ty, tx) = diagonal_cell em pk j" and "j \<in> {0..<Suc i}"
      by (rule imageE)
    then have "j \<le> i" and "diagonal_cell em pk j = (ty, tx)" by simp_all
    with diagonal_cell_fresh [OF c i, of j] t show False by simp
  qed
  have "\<bar>cy - fst pk\<bar> \<le> \<bar>ty - fst pk\<bar>" and "\<bar>cx - snd pk\<bar> \<le> \<bar>tx - snd pk\<bar>"
    unfolding dcy dcx dty dtx by linarith+
  from decreasing_fromD [OF d ibc ibt this ne]
  have lower: "item em ty tx < item em cy cx" .
  have tc: "(ty, tx) \<in> set (candidates em ?path (cy, cx))"
    unfolding in_candidates using nb ibt fresh lower by simp
  have best: "item em ty tx < item em (fst m) (snd m)"
    if m: "m \<in> set (candidates em ?path (cy, cx))" and mt: "m \<noteq> (ty, tx)" for m
  proof -
    obtain my mx where mm: "m = (my, mx)" by (cases m)
    from m have mn: "(my, mx) \<in> set (neighbors8 (cy, cx))" and ibm: "in_bounds em my mx"
      unfolding in_candidates mm by simp_all
    from mn have mnear: "\<bar>my - cy\<bar> \<le> 1" "\<bar>mx - cx\<bar> \<le> 1"
      unfolding in_neighbors8 by simp_all
    have my: "\<bar>my - fst pk\<bar> \<le> \<bar>ty - fst pk\<bar>"
      using in_bounds_dist(1) [OF c ibm] mnear(1) dcy unfolding dty by linarith
    have mx: "\<bar>mx - snd pk\<bar> \<le> \<bar>tx - snd pk\<bar>"
      using in_bounds_dist(2) [OF c ibm] mnear(2) dcx unfolding dtx by linarith
    from decreasing_fromD [OF d ibm ibt my mx] mt mm show ?thesis by simp
  qed
  show ?thesis
  proof (cases "lowest_neighbor em ?path cy cx (item em cy cx)")
    case None
    from lowest_neighbor_None [OF None mem] tc show ?thesis by simp
  next
    case (Some n)
    from lowest_neighbor_steepest [OF Some mem]
    have nc: "n \<in> set (candidates em ?path (cy, cx))"
      and le: "item em (fst n) (snd n) \<le> item em ty tx"
      using tc unfolding is_steepest_def by auto
    have "n = (ty, tx)"
    proof (rule ccontr)
      assume "n \<noteq> (ty, tx)"
      from best [OF nc this] le show False by simp
    qed
    with Some t show ?thesis by simp
  qed
qed

lemma diagonal_stop:
  assumes c: "is_corner em pk" and d: "decreasing_from em pk"
    and i: "Suc i = max (shape0 em) (shape1 em)"
    and cur: "diagonal_cell em pk i = (cy, cx)"
  shows "lowest_neighbor em (map (diagonal_cell em pk) [0..<Suc i]) cy cx (item em cy cx) = None"
proof -
  let ?path = "map (diagonal_cell em pk) [0..<Suc i]"
  have mem: "(cy, cx) \<in> set ?path" using cur by force
  have ibc: "in_bounds em cy cx" using diagonal_cell_in_bounds [OF c, of i] cur by simp
  have dcy: "\<bar>cy - fst pk\<bar> = int (shape0 em) - 1"
    and dcx: "\<bar>cx - snd pk\<bar> = int (shape1 em) - 1"
    using diagonal_cell_dist [OF c, of i] cur i by (auto simp add: min_def max_def split: if_splits)
  show ?thesis
  proof (cases "lowest_neighbor em ?path cy cx (item em cy cx)")
    case None
    then show ?thesis .
  next
    case (Some n)
    obtain ny nx where n: "n = (ny, nx)" by (cases n)
    from lowest_neighbor_steepest [OF Some mem]
    have "(ny, nx) \<in> set (candidates em ?path (cy, cx))"
      unfolding is_steepest_def n by simp
    then have nb: "(ny, nx) \<in> set (neighbors8 (cy, cx))" and ibn: "in_bounds em ny nx"
      and lt: "item em ny nx < item em cy cx"
      unfolding in_candidates by simp_all
    from nb have ne: "(ny, nx) \<noteq> (cy, cx)" unfolding in_neighbors8 by simp
    have "item em cy cx < item em ny nx"
      using in_bounds_dist [OF c ibn]
      by (intro decreasing_fromD [OF d ibn ibc _ _ ne]) (simp_all only: dcy dcx)
    with lt show ?thesis by simp
  qed
qed

lemma diagonal_run:
  assumes c: "is_corner em pk" and d: "decreasing_from em pk"
    and i: "i < max (shape0 em) (shape1 em)"
  shows "trace_loop em (map (diagonal_cell em pk) [0..<i])
           (fst (diagonal_cell em pk i)) (snd (diagonal_cell em pk i))
         = Inr (map (diagonal_cell em pk) [0..<max (shape0 em) (shape1 em)])"
  using i
proof (induction "max (shape0 em) (shape1 em) - Suc i" arbitrary: i)
  case 0
  then have e: "Suc i = max (shape0 em) (shape1 em)" by arith
  obtain cy cx where cur: "diagonal_cell em pk i = (cy, cx)" by (cases "diagonal_cell em pk i")
  have ib: "in_bounds em cy cx" using diagonal_cell_in_bounds [OF c, of i] cur by simp
  have "lowest_neighbor em (map (diagonal_cell em pk) [0..<i] @ [(cy, cx)]) cy cx (item em cy cx) = None"
    using diagonal_stop [OF c d e cur] cur by simp
  from trace_loop_stop [OF ib this] show ?case using cur e [symmetric] by simp
next
  case (Suc k)
  then have lt: "Suc i < max (shape0 em) (shape1 em)" and k: "k = max (shape0 em) (shape1 em) - Suc (Suc i)"
    by arith+
  obtain cy cx where cur: "diagonal_cell em pk i = (cy, cx)" by (cases "diagonal_cell em pk i")
  obtain ty tx where t: "diagonal_cell em pk (Suc i) = (ty, tx)"
    by (cases "diagonal_cell em pk (Suc i)")
  have ib: "in_bounds em cy cx" using diagonal_cell_in_bounds [OF c, of i] cur by simp
  have "lowest_neighbor em (map (diagonal_cell em pk) [0..<i] @ [(cy, cx)]) cy cx (item em cy cx)
      = Some (ty, tx)"
    using diagonal_step [OF c d lt cur] cur t by simp
  from trace_loop_move [OF ib this]
  have "trace_loop em (map (diagonal_cell em pk) [0..<i]) cy cx
      = trace_loop em (map (diagonal_cell em pk) [0..<Suc i]) ty tx"
    using cur by simp
  also have "\<dots> = Inr (map (diagonal_cell em pk) [0..<max (shape0 em) (shape1 em)])"
    using Suc.hyps(1) [OF k lt] t by simp
  finally show ?case using cur by simp
qed

lemma diagonal_cell_0:
  assumes "is_corner em pk"
  shows "diagonal_cell em pk 0 = pk"
  using assms by (simp add: is_corner_def diagonal_cell_def toward_0)

lemma diagonal_cell_last:
  assumes "is_corner em pk"
  shows "diagonal_cell em pk (max (shape0 em) (shape1 em) - 1) = opposite_corner em pk"
proof -
  have c: "0 < int (shape0 em)" "0 < int (shape1 em)"
    "fst pk = 0 \<or> fst pk = int (shape0 em) - 1" "snd pk = 0 \<or> snd pk = int (shape1 em) - 1"
    using assms by (simp_all add: is_corner_def)
  have "int (shape0 em) - 1 \<le> int (max (shape0 em) (shape1 em) - 1)"
    and "int (shape1 em) - 1 \<le> int (max (shape0 em) (shape1 em) - 1)"
    using c(1,2) by linarith+
  from toward_last [OF c(1,3) this(1)] toward_last [OF c(2,4) this(2)]
  show ?thesis by (simp add: diagonal_cell_def opposite_corner_def)
qed

lemma chebyshev_corners:
  assumes "is_corner em pk"
  shows "chebyshev pk (opposite_corner em pk) + 1 = int (max (shape0 em) (shape1 em))"
  using assms
  by (auto simp add: is_corner_def chebyshev_def opposite_corner_def)

lemma diagonal_of_square:
  assumes c: "is_corner em pk" and sq: "shape0 em = shape1 em"
  shows "set (map (diagonal_cell em pk) [0..<max (shape0 em) (shape1 em)])
       = {c \<in> set (all_cells em). \<bar>fst c - fst pk\<bar> = \<bar>snd c - snd pk\<bar>}"
proof (intro set_eqI iffI)
  fix a
  assume "a \<in> set (map (diagonal_cell em pk) [0..<max (shape0 em) (shape1 em)])"
  then have "a \<in> diagonal_cell em pk ` {0..<max (shape0 em) (shape1 em)}"
    by (simp only: set_map set_upt)
  then obtain i where a: "a = diagonal_cell em pk i" by (rule imageE)
  show "a \<in> {c \<in> set (all_cells em). \<bar>fst c - fst pk\<bar> = \<bar>snd c - snd pk\<bar>}"
    using diagonal_cell_in_bounds [OF c, of i] diagonal_cell_dist [OF c, of i] sq
    by (simp add: a in_all_cells)
next
  fix a
  assume "a \<in> {c \<in> set (all_cells em). \<bar>fst c - fst pk\<bar> = \<bar>snd c - snd pk\<bar>}"
  then have ib: "in_bounds em (fst a) (snd a)" and eq: "\<bar>fst a - fst pk\<bar> = \<bar>snd a - snd pk\<bar>"
    by (simp_all add: in_all_cells)
  define k where "k = nat \<bar>fst a - fst pk\<bar>"
  have ck: "0 < int (shape0 em)" "fst pk = 0 \<or> fst pk = int (shape0 em) - 1"
    "snd pk = 0 \<or> snd pk = int (shape0 em) - 1"
    using c sq by (simp_all add: is_corner_def)
  have b: "0 \<le> fst a" "fst a < int (shape0 em)" "0 \<le> snd a" "snd a < int (shape0 em)"
    using ib sq by (simp_all add: in_bounds_def)
  have "fst a = toward (fst pk) (int (shape0 em)) k"
    using ck b unfolding k_def toward_def by (auto simp add: min_def split: if_splits)
  moreover have "snd a = toward (snd pk) (int (shape0 em)) k"
    using ck b eq unfolding k_def toward_def by (auto simp add: min_def split: if_splits)
  ultimately have "a = diagonal_cell em pk k"
    using sq by (simp add: diagonal_cell_def prod_eq_iff)
  moreover have "k < max (shape0 em) (shape1 em)"
    using ck b sq unfolding k_def by auto
  ultimately have "a \<in> diagonal_cell em pk ` {0..<max (shape0 em) (shape1 em)}" by simp
  then show "a \<in> set (map (diagonal_cell em pk) [0..<max (shape0 em) (shape1 em)])"
    by (simp only: set_map set_upt)
qed

lemma in_bounds_corner:
  assumes "is_corner em pk"
  shows "in_bounds em (fst pk) (snd pk)"
  using diagonal_cell_in_bounds [OF assms, of 0] by (simp add: diagonal_cell_0 [OF assms])

text \<open>
  C9, amended. On a field that strictly decreases away from a corner peak along both axes,
  the path from the peak is \<open>diagonal_cell 0, 1, ...\<close>: it steps diagonally until it meets
  an edge and then along that edge, ends at the opposite corner and has no repeated cell; on
  a square grid its cells are exactly the cells of the diagonal through the peak. The path
  has Chebyshev distance plus one cells, that is, Chebyshev-distance many moves.
\<close>

theorem slope_trace_follows_diagonal:
  assumes "is_corner elevation_map peak" and "decreasing_from elevation_map peak"
  shows "\<exists>path. find_downhill_water_path (fst peak) (snd peak) elevation_map = Inr path
     \<and> path = map (diagonal_cell elevation_map peak)
                [0..<max (shape0 elevation_map) (shape1 elevation_map)]
     \<and> distinct path
     \<and> hd path = peak \<and> last path = opposite_corner elevation_map peak
     \<and> (shape0 elevation_map = shape1 elevation_map \<longrightarrow>
          set path = {c \<in> set (all_cells elevation_map).
                        \<bar>fst c - fst peak\<bar> = \<bar>snd c - snd peak\<bar>})
     \<and> int (length path) = chebyshev peak (opposite_corner elevation_map peak) + 1
     \<and> int (length path - 1) = chebyshev peak (opposite_corner elevation_map peak)"
proof -
  let ?n = "max (shape0 elevation_map) (shape1 elevation_map)"
  let ?p = "map (diagonal_cell elevation_map peak) [0..<?n]"
  have pos: "0 < ?n" using assms(1) by (auto simp add: is_corner_def)
  have run: "find_downhill_water_path (fst peak) (snd peak) elevation_map = Inr ?p"
    using diagonal_run [OF assms pos] diagonal_cell_0 [OF assms(1)]
    by (simp add: find_downhill_water_path_def)
  from find_downhill_water_path_correct [OF in_bounds_corner [OF assms(1)]] run
  have dist: "distinct ?p" by auto
  have ne: "[0..<?n] \<noteq> []" using assms(1) by (simp add: is_corner_def)
  have hd: "hd ?p = peak"
    using pos diagonal_cell_0 [OF assms(1)] by (simp add: hd_map [OF ne] hd_upt)
  have "last [0..<?n] = ?n - 1" using pos by (cases ?n) simp_all
  then have last: "last ?p = opposite_corner elevation_map peak"
    using diagonal_cell_last [OF assms(1)] by (simp add: last_map [OF ne])
  have len: "int (length ?p) = chebyshev peak (opposite_corner elevation_map peak) + 1"
    using chebyshev_corners [OF assms(1)] by simp
  have len': "int (length ?p - 1) = chebyshev peak (opposite_corner elevation_map peak)"
    using len pos by (simp add: of_nat_diff)
  have sq: "shape0 elevation_map = shape1 elevation_map \<longrightarrow>
          set ?p = {c \<in> set (all_cells elevation_map).
                        \<bar>fst c - fst peak\<bar> = \<bar>snd c - snd peak\<bar>}"
    using diagonal_of_square [OF assms(1)] by blast
  from run dist hd last sq len len' show ?thesis by blast
qed

lemma slope3_corner: "is_corner slope3 (0, 0)"
  by (simp add: slope3_def is_corner_def of_rows_def)

lemma slope3_decreasing: "decreasing_from slope3 (0, 0)"
  by (simp add: slope3_def decreasing_from_def all_cells_def py_range_def upt_conv_Cons of_rows_def)

lemma slope3_chebyshev: "chebyshev (0, 0) (opposite_corner slope3 (0, 0)) = 2"
  by (simp add: slope3_def chebyshev_def opposite_corner_def of_rows_def)

text \<open>
  C9, as stated, fails in its last part when the length of the returned path is the number
  of its coordinates: on the 3 by 3 slope the path has 3 cells, while the Chebyshev distance
  between the corners is 2.
\<close>

theorem slope_path_length_counterexample:
  "is_corner slope3 (0, 0) \<and> decreasing_from slope3 (0, 0) \<and>
   find_downhill_water_path 0 0 slope3 = Inr [(0, 0), (1, 1), (2, 2)] \<and>
   length [(0, 0), (1, 1), (2, 2) :: cell] = 3 \<and>
   chebyshev (0, 0) (opposite_corner slope3 (0, 0)) = 2 \<and>
   int (length [(0, 0), (1, 1), (2, 2) :: cell]) \<noteq> chebyshev (0, 0) (opposite_corner slope3 (0, 0))"
  using slope3_corner slope3_decreasing slope3_path slope3_chebyshev by simp

theorem slope_trace_follows_diagonal_witness:
  "is_corner slope3 (0, 0) \<and> decreasing_from slope3 (0, 0) \<and>
   find_downhill_water_path 0 0 slope3 = Inr [(0, 0), (1, 1), (2, 2)] \<and>
   map (diagonal_cell slope3 (0, 0)) [0..<max (shape0 slope3) (shape1 slope3)]
     = [(0, 0), (1, 1), (2, 2)] \<and>
   opposite_corner slope3 (0, 0) = (2, 2) \<and>
   int (length [(0, 0), (1, 1), (2, 2) :: cell]) = chebyshev (0, 0) (opposite_corner slope3 (0, 0)) + 1"
proof -
  from slope_trace_follows_diagonal [OF slope3_corner slope3_decreasing]
  obtain path where p: "find_downhill_water_path 0 0 slope3 = Inr path"
    and d: "path = map (diagonal_cell slope3 (0, 0)) [0..<max (shape0 slope3) (shape1 slope3)]"
    and l: "last path = opposite_corner slope3 (0, 0)"
    and n: "int (length path) = chebyshev (0, 0) (opposite_corner slope3 (0, 0)) + 1"
    by auto
  from p have path: "path = [(0, 0), (1, 1), (2, 2)]" by (simp add: slope3_path)
  from d have "map (diagonal_cell slope3 (0, 0)) [0..<max (shape0 slope3) (shape1 slope3)]
     = [(0, 0), (1, 1), (2, 2)]" unfolding path by simp
  moreover from l have "opposite_corner slope3 (0, 0) = (2, 2)" unfolding path by simp
  moreover from n have "int (length [(0, 0), (1, 1), (2, 2) :: cell])
      = chebyshev (0, 0) (opposite_corner slope3 (0, 0)) + 1" unfolding path .
  ultimately show ?thesis
    using slope3_corner slope3_decreasing slope3_path by blast
qed

end
